theory Spec2Isabelle
  imports Main "HOL-Library.AList"
begin

section \<open>The graph engine of \<^verbatim>\<open>pyiron_contrib/protocol/graph.py\<close>\<close>

text \<open>
  The module defines \<^verbatim>\<open>Vertex\<close>, its subclass \<^verbatim>\<open>Graph\<close>, and the
  dictionaries \<^verbatim>\<open>DotDict\<close>, \<^verbatim>\<open>Vertices\<close> and \<^verbatim>\<open>Edges\<close>. Vertex objects are
  mutable and shared between the collections, so they live in a store addressed by
  object identity; the dictionaries hold references.
\<close>

subsection \<open>Values, errors, outcomes\<close>

type_synonym vref = nat
  \<comment> \<open>identity of a \<^verbatim>\<open>Vertex\<close> object\<close>

type_synonym name = "string option"
  \<comment> \<open>a dictionary key or a \<^verbatim>\<open>vertex_name\<close>: a string, or Python's \<^verbatim>\<open>None\<close>\<close>

datatype pyobj = VertexObj vref | StrObj string | IntObj int | NoneObj
  \<comment> \<open>what a caller may pass where the code tests \<^verbatim>\<open>isinstance(_, Vertex)\<close>
      or \<^verbatim>\<open>isinstance(_, str)\<close>\<close>

datatype error = TypeError | ValueError | KeyError | IndexError | AttributeError | OtherError

text \<open>
  A call either returns (\<open>Inr\<close> the state it leaves) or raises (\<open>Inl\<close> the exception
  together with the state at the moment of the raise, so that what a failed call has
  already changed stays visible).
\<close>

type_synonym 's outcome = "(error \<times> 's) + 's"

definition state_of :: "'s outcome \<Rightarrow> 's" where
  "state_of r = (case r of Inl (e, s) \<Rightarrow> s | Inr s \<Rightarrow> s)"

subsection \<open>\<^verbatim>\<open>class Vertex\<close>\<close>

definition DEFAULT_STATE :: string where
  "DEFAULT_STATE = ''next''"

text \<open>
  The attributes assigned by \<^verbatim>\<open>Vertex.__init__\<close>. The classes \<^verbatim>\<open>Input\<close> and
  \<^verbatim>\<open>Output\<close> come from \<^verbatim>\<open>pyiron_contrib.protocol.io\<close>, which is not part of the
  sources at hand: they are the type parameters \<open>'i\<close> and \<open>'o\<close>. The field
  \<open>vertex_state\<close> is the attribute \<^verbatim>\<open>_vertex_state\<close>, which the property of that name
  returns; \<open>input_channels\<close> and \<open>output_channels\<close> are the attributes
  \<^verbatim>\<open>input\<close> and \<^verbatim>\<open>output\<close>.
\<close>

record ('i, 'o) vertex =
  input_channels :: 'i
  output_channels :: 'o
  clock :: int
  vertex_name :: name
  vertex_state :: string
  possible_vertex_states :: "string list"

type_synonym ('i, 'o) heap = "vref \<Rightarrow> ('i, 'o) vertex"

text \<open>
  \<^verbatim>\<open>Vertex.__init__(self, *args, vertex_name=None, **kwargs)\<close>; the arguments \<open>i\<close>
  and \<open>o\<close> are \<^verbatim>\<open>Input()\<close> and \<^verbatim>\<open>Output()\<close> after the abstract
  \<^verbatim>\<open>init_io_channels\<close> has run.
\<close>

definition Vertex_init :: "'i \<Rightarrow> 'o \<Rightarrow> name \<Rightarrow> ('i, 'o) vertex" where
  "Vertex_init i o' nm =
     \<lparr>input_channels = i, output_channels = o', clock = 0, vertex_name = nm,
      vertex_state = DEFAULT_STATE, possible_vertex_states = [DEFAULT_STATE]\<rparr>"

text \<open>The setter of the property \<^verbatim>\<open>vertex_state\<close>.\<close>

definition set_vertex_state ::
  "string \<Rightarrow> ('i, 'o, 'z) vertex_scheme \<Rightarrow> (('i, 'o, 'z) vertex_scheme) outcome" where
  "set_vertex_state new_state v =
     (if new_state \<notin> set (possible_vertex_states v) then Inl (ValueError, v)
      else Inr (v\<lparr>vertex_state := new_state\<rparr>))"

text \<open>
  The abstract method \<^verbatim>\<open>function\<close> and the two calls into the missing module are
  parameters of the model:
  \<^item> \<open>fn r h\<close> is \<^verbatim>\<open>self.function(**self.input.resolve())\<close> for the object \<open>r\<close>
    in the store \<open>h\<close>. Resolution reads the object tree; the call raises, or returns
    the dictionary \<^verbatim>\<open>output_data\<close> (as its item list) together with the state it
    assigned to \<^verbatim>\<open>self.vertex_state\<close> through the setter, if it assigned one. The
    source evaluates \<^verbatim>\<open>self.input.resolve()\<close> once more for a \<^verbatim>\<open>print\<close>; resolution
    is taken to have no effect on the store.
  \<^item> \<open>push out key value\<close> is \<^verbatim>\<open>getattr(self.output, key).push(value)\<close>.
\<close>

record ('i, 'o, 'a) env =
  fn :: "vref \<Rightarrow> ('i, 'o) heap \<Rightarrow> error + (string option \<times> (string \<times> 'a) list)"
  push :: "'o \<Rightarrow> string \<Rightarrow> 'a \<Rightarrow> error + 'o"

text \<open>
  \<^verbatim>\<open>update_and_archive\<close>: the loop over \<^verbatim>\<open>output_data.items()\<close>, then
  \<^verbatim>\<open>_update_archive\<close>, whose body is \<^verbatim>\<open>pass\<close>.
\<close>

fun push_all :: "('o \<Rightarrow> string \<Rightarrow> 'a \<Rightarrow> error + 'o) \<Rightarrow> (string \<times> 'a) list \<Rightarrow> 'o \<Rightarrow> 'o outcome" where
  "push_all p [] out = Inr out"
| "push_all p ((key, value) # items) out =
     (case p out key value of
        Inl e \<Rightarrow> Inl (e, out)
      | Inr out' \<Rightarrow> push_all p items out')"

definition update_archive :: "('i, 'o, 'z) vertex_scheme \<Rightarrow> ('i, 'o, 'z) vertex_scheme" where
  "update_archive v = v"

definition update_and_archive ::
  "('i, 'o, 'a) env \<Rightarrow> (string \<times> 'a) list \<Rightarrow> ('i, 'o, 'z) vertex_scheme \<Rightarrow>
     (('i, 'o, 'z) vertex_scheme) outcome" where
  "update_and_archive P output_data v =
     (case push_all (push P) output_data (output_channels v) of
        Inl (e, out) \<Rightarrow> Inl (e, v\<lparr>output_channels := out\<rparr>)
      | Inr out \<Rightarrow> Inr (update_archive (v\<lparr>output_channels := out\<rparr>)))"

text \<open>\<^verbatim>\<open>Vertex.execute\<close> of the object \<open>r\<close>.\<close>

definition Vertex_execute ::
  "('i, 'o, 'a) env \<Rightarrow> vref \<Rightarrow> ('i, 'o) heap \<Rightarrow> (('i, 'o) heap) outcome" where
  "Vertex_execute P r h =
     (case fn P r h of
        Inl e \<Rightarrow> Inl (e, h)
      | Inr (assigned, output_data) \<Rightarrow>
          (case (case assigned of None \<Rightarrow> Inr (h r) | Some s \<Rightarrow> set_vertex_state s (h r)) of
             Inl (e, v) \<Rightarrow> Inl (e, h(r := v))
           | Inr v \<Rightarrow>
               (case update_and_archive P output_data v of
                  Inl (e, v') \<Rightarrow> Inl (e, h(r := v'))
                | Inr v' \<Rightarrow> Inr (h(r := v')))))"

subsection \<open>\<^verbatim>\<open>class DotDict\<close>, \<^verbatim>\<open>class Vertices\<close>\<close>

text \<open>
  \<^verbatim>\<open>DotDict.__setattr__\<close> calls \<^verbatim>\<open>self.__setitem__\<close>, which dispatches to the
  subclass: attribute-style and item-style assignment are the same operation. A
  \<^verbatim>\<open>Vertices\<close> dictionary is an association list in insertion order, since
  \<^verbatim>\<open>_initialize_edges\<close> iterates over its values; \<open>AList.update\<close> replaces the value
  of a key that is present, in place, and appends a new key, as \<^verbatim>\<open>dict\<close> does.
\<close>

type_synonym vertices = "(name \<times> vref) list"

definition Vertices_setitem ::
  "name \<Rightarrow> pyobj \<Rightarrow> ('i, 'o) heap \<times> vertices \<Rightarrow> (('i, 'o) heap \<times> vertices) outcome" where
  "Vertices_setitem key value hv =
     (case hv of (h, vs) \<Rightarrow>
        (case value of
           VertexObj r \<Rightarrow> Inr (h(r := (h r)\<lparr>vertex_name := key\<rparr>), AList.update key r vs)
         | _ \<Rightarrow> Inl (TypeError, (h, vs))))"

subsection \<open>\<^verbatim>\<open>class Edges\<close>\<close>

type_synonym row = "string \<rightharpoonup> name"
  \<comment> \<open>state to the successor's name; \<open>Some None\<close> is the entry \<^verbatim>\<open>None\<close>\<close>

type_synonym edges = "name \<rightharpoonup> row"

definition dead_end :: "string list \<Rightarrow> row" where
  \<comment> \<open>\<^verbatim>\<open>DotDict({k: None for k in value.possible_vertex_states})\<close>\<close>
  "dead_end states = map_of (map (\<lambda>k. (k, None)) states)"

definition Edges_setitem :: "name \<Rightarrow> pyobj \<Rightarrow> ('i, 'o) heap \<Rightarrow> edges \<Rightarrow> edges outcome" where
  "Edges_setitem key value h es =
     (case value of
        VertexObj r \<Rightarrow>
          if key \<noteq> vertex_name (h r) then Inl (ValueError, es)
          else Inr (es(key \<mapsto> dead_end (possible_vertex_states (h r))))
      | _ \<Rightarrow> Inl (TypeError, es))"

text \<open>
  \<^verbatim>\<open>Edges.initialize(vertex)\<close> reads \<^verbatim>\<open>vertex.vertex_name\<close> first, an attribute only
  a Vertex has.
\<close>

definition Edges_initialize :: "pyobj \<Rightarrow> ('i, 'o) heap \<Rightarrow> edges \<Rightarrow> edges outcome" where
  "Edges_initialize vertex h es =
     (case vertex of
        VertexObj r \<Rightarrow> Edges_setitem (vertex_name (h r)) vertex h es
      | _ \<Rightarrow> Inl (AttributeError, es))"

text \<open>
  \<^verbatim>\<open>Edges.set_flow_chain(*args)\<close>. The loop runs over \<^verbatim>\<open>enumerate(args[:-1])\<close> and
  looks ahead to \<^verbatim>\<open>args[n + 1]\<close> and, after a string, to \<^verbatim>\<open>args[n + 2]\<close>, which may
  not exist. The recursion is on the arguments from position \<open>n\<close> on.
\<close>

fun set_flow_chain :: "('i, 'o) heap \<Rightarrow> pyobj list \<Rightarrow> edges \<Rightarrow> edges outcome" where
  "set_flow_chain h [] es = Inr es"
| "set_flow_chain h [x] es = Inr es"
| "set_flow_chain h (VertexObj v # next_obj # rest) es =
     (case (case next_obj of
              StrObj s \<Rightarrow> (case rest of [] \<Rightarrow> Inl IndexError | nv # _ \<Rightarrow> Inr (s, nv))
            | _ \<Rightarrow> Inr (DEFAULT_STATE, next_obj)) of
        Inl e \<Rightarrow> Inl (e, es)
      | Inr (state, next_vertex) \<Rightarrow>
          (case next_vertex of
             VertexObj w \<Rightarrow>
               if state \<notin> set (possible_vertex_states (h v)) then Inl (KeyError, es)
               else
                 (case es (vertex_name (h v)) of
                    None \<Rightarrow> Inl (KeyError, es)
                  | Some row \<Rightarrow>
                      set_flow_chain h (next_obj # rest)
                        (es(vertex_name (h v) \<mapsto> row(state \<mapsto> vertex_name (h w)))))
           | _ \<Rightarrow> Inl (TypeError, es)))"
| "set_flow_chain h (x # next_obj # rest) es = set_flow_chain h (next_obj # rest) es"

subsection \<open>\<^verbatim>\<open>class Graph(Vertex)\<close>\<close>

record ('i, 'o) graph = "('i, 'o) vertex" +
  vertices :: vertices
  edges :: edges
  starting_vertex :: "vref option"
  restarting_vertex :: "vref option"
  active_vertex :: "vref option"

text \<open>
  The state a graph's methods work on: the store of its child Vertex objects, the graph
  object itself, the messages given to \<^verbatim>\<open>self.logger.warn\<close> (the logger comes from the
  missing \<^verbatim>\<open>LoggerMixin\<close>), and, for counting, the children on which the loop of
  \<^verbatim>\<open>Graph.function\<close> has called \<^verbatim>\<open>execute\<close>, in order. The last field is not
  an attribute of the source.
\<close>

record ('i, 'o) world =
  heap :: "('i, 'o) heap"
  graph :: "('i, 'o) graph"
  logged :: "string list"
  executions :: "vref list"

definition format_name :: "name \<Rightarrow> string" where
  "format_name n = (case n of None \<Rightarrow> ''None'' | Some s \<Rightarrow> s)"

text \<open>The abstract methods of \<^verbatim>\<open>Graph\<close>, and the resolution of the graph's own input.\<close>

record ('i, 'o, 'a) hooks =
  set_vertices :: "('i, 'o) world \<Rightarrow> (('i, 'o) world) outcome"
  set_edges :: "('i, 'o) world \<Rightarrow> (('i, 'o) world) outcome"
  wire_data_flow :: "('i, 'o) world \<Rightarrow> (('i, 'o) world) outcome"
  get_output :: "('i, 'o) world \<Rightarrow> error + (string \<times> 'a) list"
  resolve_input :: "('i, 'o) world \<Rightarrow> error option"

fun initialize_all :: "('i, 'o) heap \<Rightarrow> vref list \<Rightarrow> edges \<Rightarrow> edges outcome" where
  "initialize_all h [] es = Inr es"
| "initialize_all h (v # vs) es =
     (case Edges_initialize (VertexObj v) h es of
        Inl e \<Rightarrow> Inl e
      | Inr es' \<Rightarrow> initialize_all h vs es')"

definition with_edges :: "('i, 'o) world \<Rightarrow> edges \<Rightarrow> ('i, 'o) world" where
  "with_edges w es = w\<lparr>graph := (graph w)\<lparr>edges := es\<rparr>\<rparr>"

definition with_active :: "('i, 'o) world \<Rightarrow> vref option \<Rightarrow> ('i, 'o) world" where
  "with_active w a = w\<lparr>graph := (graph w)\<lparr>active_vertex := a\<rparr>\<rparr>"

definition warn :: "string \<Rightarrow> ('i, 'o) world \<Rightarrow> ('i, 'o) world" where
  "warn msg w = w\<lparr>logged := logged w @ [msg]\<rparr>"

text \<open>\<^verbatim>\<open>Graph._initialize_edges\<close>: \<^verbatim>\<open>for v in self.vertices.values(): self.edges.initialize(v)\<close>.\<close>

definition Graph_initialize_edges :: "('i, 'o) world \<Rightarrow> (('i, 'o) world) outcome" where
  "Graph_initialize_edges w =
     (case initialize_all (heap w) (map snd (vertices (graph w))) (edges (graph w)) of
        Inl (e, es) \<Rightarrow> Inl (e, with_edges w es)
      | Inr es \<Rightarrow> Inr (with_edges w es))"

text \<open>
  \<^verbatim>\<open>Graph.__init__\<close>. The attribute \<^verbatim>\<open>active_vertex\<close> is assigned on the last line
  only; until then the field holds \<open>None\<close>.
\<close>

definition Graph_new :: "'i \<Rightarrow> 'o \<Rightarrow> ('i, 'o) graph" where
  "Graph_new i o' =
     vertex.extend (Vertex_init i o' None)
       (graph.fields [] Map.empty None None None)"

definition Graph_init ::
  "('i, 'o, 'a) hooks \<Rightarrow> 'i \<Rightarrow> 'o \<Rightarrow> ('i, 'o) heap \<Rightarrow> (('i, 'o) world) outcome" where
  "Graph_init H i o' h =
     (case set_vertices H \<lparr>heap = h, graph = Graph_new i o', logged = [], executions = []\<rparr> of
        Inl e \<Rightarrow> Inl e
      | Inr w1 \<Rightarrow>
     (case Graph_initialize_edges w1 of
        Inl e \<Rightarrow> Inl e
      | Inr w2 \<Rightarrow>
     (case set_edges H w2 of
        Inl e \<Rightarrow> Inl e
      | Inr w3 \<Rightarrow>
     (case wire_data_flow H w3 of
        Inl e \<Rightarrow> Inl e
      | Inr w4 \<Rightarrow>
          (let w5 = (if starting_vertex (graph w4) = None
                     then warn (''Starting vertex not set for '' @ format_name (vertex_name (graph w4))) w4
                     else w4)
           in Inr (with_active w5 (starting_vertex (graph w5))))))))"

text \<open>\<^verbatim>\<open>Graph.step\<close>. Both dictionaries are read with \<^verbatim>\<open>dict.__getitem__\<close>.\<close>

definition Graph_step :: "('i, 'o) world \<Rightarrow> (('i, 'o) world) outcome" where
  "Graph_step w =
     (case active_vertex (graph w) of
        None \<Rightarrow> Inr w
      | Some r \<Rightarrow>
          (case edges (graph w) (vertex_name (heap w r)) of
             None \<Rightarrow> Inl (KeyError, w)
           | Some row \<Rightarrow>
               (case row (vertex_state (heap w r)) of
                  None \<Rightarrow> Inl (KeyError, w)
                | Some None \<Rightarrow> Inr (with_active w None)
                | Some (Some next_vertex_name) \<Rightarrow>
                    (case map_of (vertices (graph w)) (Some next_vertex_name) of
                       None \<Rightarrow> Inl (KeyError, w)
                     | Some r' \<Rightarrow> Inr (with_active w (Some r'))))))"

text \<open>\<^verbatim>\<open>Graph.reset\<close>.\<close>

definition Graph_reset :: "('i, 'o) world \<Rightarrow> (('i, 'o) world) outcome" where
  "Graph_reset w =
     (if active_vertex (graph w) \<noteq> None then Inl (ValueError, w)
      else
        (let w' = (if restarting_vertex (graph w) = None
                   then warn (''Reseting graph '' @ format_name (vertex_name (graph w)) @
                              '' but found no restarting vertex.'') w
                   else w)
         in Inr (with_active w' (restarting_vertex (graph w')))))"

text \<open>
  The loop of \<^verbatim>\<open>Graph.function\<close>. It need not terminate: not returning is the value
  \<open>None\<close>.
\<close>

definition execute_active :: "('i, 'o, 'a) env \<Rightarrow> vref \<Rightarrow> ('i, 'o) world \<Rightarrow> (('i, 'o) world) outcome" where
  \<comment> \<open>\<^verbatim>\<open>self.active_vertex.execute()\<close>, recorded in \<open>executions\<close>\<close>
  "execute_active P r w =
     (case Vertex_execute P r (heap w) of
        Inl (e, h) \<Rightarrow> Inl (e, w\<lparr>heap := h, executions := executions w @ [r]\<rparr>)
      | Inr h \<Rightarrow> Inr (w\<lparr>heap := h, executions := executions w @ [r]\<rparr>))"

partial_function (option) Graph_while ::
  "('i, 'o, 'a) env \<Rightarrow> ('i, 'o) world \<Rightarrow> (('i, 'o) world) outcome option" where
  "Graph_while P w =
     (case active_vertex (graph w) of
        None \<Rightarrow> Some (Inr w)
      | Some r \<Rightarrow>
          (case execute_active P r w of
             Inl e \<Rightarrow> Some (Inl e)
           | Inr w1 \<Rightarrow>
               (case Graph_step w1 of
                  Inl e \<Rightarrow> Some (Inl e)
                | Inr w2 \<Rightarrow> Graph_while P w2)))"

text \<open>\<^verbatim>\<open>Graph.function\<close>: the loop, then \<^verbatim>\<open>get_output\<close>.\<close>

definition Graph_function ::
  "('i, 'o, 'a) env \<Rightarrow> ('i, 'o, 'a) hooks \<Rightarrow> ('i, 'o) world \<Rightarrow>
     ((error \<times> ('i, 'o) world) + ((string \<times> 'a) list \<times> ('i, 'o) world)) option" where
  "Graph_function P H w =
     (case Graph_while P w of
        None \<Rightarrow> None
      | Some (Inl e) \<Rightarrow> Some (Inl e)
      | Some (Inr w') \<Rightarrow>
          (case get_output H w' of
             Inl e \<Rightarrow> Some (Inl (e, w'))
           | Inr output_data \<Rightarrow> Some (Inr (output_data, w'))))"

text \<open>
  \<^verbatim>\<open>execute\<close> of the graph itself, inherited from \<^verbatim>\<open>Vertex\<close>: resolve the graph's
  input, run \<^verbatim>\<open>function\<close>, push the output onto the graph's own channels.
\<close>

definition Graph_execute ::
  "('i, 'o, 'a) env \<Rightarrow> ('i, 'o, 'a) hooks \<Rightarrow> ('i, 'o) world \<Rightarrow> (('i, 'o) world) outcome option" where
  "Graph_execute P H w =
     (case resolve_input H w of
        Some e \<Rightarrow> Some (Inl (e, w))
      | None \<Rightarrow>
          (case Graph_function P H w of
             None \<Rightarrow> None
           | Some (Inl e) \<Rightarrow> Some (Inl e)
           | Some (Inr (output_data, w')) \<Rightarrow>
               (case update_and_archive P output_data (graph w') of
                  Inl (e, g) \<Rightarrow> Some (Inl (e, w'\<lparr>graph := g\<rparr>))
                | Inr g \<Rightarrow> Some (Inr (w'\<lparr>graph := g\<rparr>)))))"

subsection \<open>Calls on a graph and its collections\<close>

text \<open>
  The calls a user of the module makes on one graph, each as a function on the state:
  assignments into \<^verbatim>\<open>self.vertices\<close> and \<^verbatim>\<open>self.edges\<close>, the wiring helper, the
  execution of a child, an assignment to a child's \<^verbatim>\<open>vertex_state\<close>, and the graph's
  own methods.
\<close>

definition with_vertices ::
  "('i, 'o) world \<Rightarrow> ('i, 'o) heap \<times> vertices \<Rightarrow> ('i, 'o) world" where
  "with_vertices w hv = w\<lparr>heap := fst hv, graph := (graph w)\<lparr>vertices := snd hv\<rparr>\<rparr>"

definition Graph_vertices_setitem ::
  "name \<Rightarrow> pyobj \<Rightarrow> ('i, 'o) world \<Rightarrow> (('i, 'o) world) outcome" where
  \<comment> \<open>\<^verbatim>\<open>self.vertices[key] = value\<close>\<close>
  "Graph_vertices_setitem key value w =
     (case Vertices_setitem key value (heap w, vertices (graph w)) of
        Inl (e, hv) \<Rightarrow> Inl (e, with_vertices w hv)
      | Inr hv \<Rightarrow> Inr (with_vertices w hv))"

definition on_edges ::
  "(('i, 'o) heap \<Rightarrow> edges \<Rightarrow> edges outcome) \<Rightarrow> ('i, 'o) world \<Rightarrow> (('i, 'o) world) outcome" where
  \<comment> \<open>a method of \<^verbatim>\<open>self.edges\<close>\<close>
  "on_edges f w =
     (case f (heap w) (edges (graph w)) of
        Inl (e, es) \<Rightarrow> Inl (e, with_edges w es)
      | Inr es \<Rightarrow> Inr (with_edges w es))"

definition assign_vertex_state ::
  "vref \<Rightarrow> string \<Rightarrow> ('i, 'o) world \<Rightarrow> (('i, 'o) world) outcome" where
  \<comment> \<open>\<^verbatim>\<open>v.vertex_state = new_state\<close> for the child \<open>r\<close>\<close>
  "assign_vertex_state r new_state w =
     (case set_vertex_state new_state (heap w r) of
        Inl (e, v) \<Rightarrow> Inl (e, w)
      | Inr v \<Rightarrow> Inr (w\<lparr>heap := (heap w)(r := v)\<rparr>))"

datatype op =
    VerticesSet name pyobj
  | EdgesSet name pyobj
  | EdgesInitialize pyobj
  | SetFlowChain "pyobj list"
  | InitializeEdges
  | Execute vref
  | AssignState vref string
  | Step
  | Reset

fun apply_op :: "('i, 'o, 'a) env \<Rightarrow> op \<Rightarrow> ('i, 'o) world \<Rightarrow> (('i, 'o) world) outcome" where
  "apply_op P (VerticesSet key value) w = Graph_vertices_setitem key value w"
| "apply_op P (EdgesSet key value) w = on_edges (Edges_setitem key value) w"
| "apply_op P (EdgesInitialize vertex) w = on_edges (Edges_initialize vertex) w"
| "apply_op P (SetFlowChain args) w = on_edges (\<lambda>h. set_flow_chain h args) w"
| "apply_op P InitializeEdges w = Graph_initialize_edges w"
| "apply_op P (Execute r) w = execute_active P r w"
| "apply_op P (AssignState r new_state) w = assign_vertex_state r new_state w"
| "apply_op P Step w = Graph_step w"
| "apply_op P Reset w = Graph_reset w"

text \<open>
  A sequence of calls; a call that raises leaves the state it had reached, and the
  caller goes on from there.
\<close>

definition run_ops :: "('i, 'o, 'a) env \<Rightarrow> op list \<Rightarrow> ('i, 'o) world \<Rightarrow> ('i, 'o) world" where
  "run_ops P ops w = fold (\<lambda>c w'. state_of (apply_op P c w')) ops w"

definition runtime_op :: "op \<Rightarrow> bool" where
  \<comment> \<open>the calls made while a graph runs, as opposed to those that wire it\<close>
  "runtime_op c = (case c of Execute r \<Rightarrow> True | AssignState r s \<Rightarrow> True | Step \<Rightarrow> True
                     | Reset \<Rightarrow> True | _ \<Rightarrow> False)"

subsection \<open>The construction protocol\<close>

text \<open>
  The way the abstract methods are meant to be filled in: \<^verbatim>\<open>set_vertices\<close> registers
  vertices one after the other, \<^verbatim>\<open>set_edges\<close> makes a series of
  \<^verbatim>\<open>set_flow_chain\<close> calls, \<^verbatim>\<open>wire_data_flow\<close> names the starting and
  restarting vertex.
\<close>

fun register_all :: "(name \<times> vref) list \<Rightarrow> ('i, 'o) world \<Rightarrow> (('i, 'o) world) outcome" where
  "register_all [] w = Inr w"
| "register_all ((key, r) # regs) w =
     (case Graph_vertices_setitem key (VertexObj r) w of
        Inl e \<Rightarrow> Inl e
      | Inr w' \<Rightarrow> register_all regs w')"

fun flow_chains :: "pyobj list list \<Rightarrow> ('i, 'o) world \<Rightarrow> (('i, 'o) world) outcome" where
  "flow_chains [] w = Inr w"
| "flow_chains (args # calls) w =
     (case on_edges (\<lambda>h. set_flow_chain h args) w of
        Inl e \<Rightarrow> Inl e
      | Inr w' \<Rightarrow> flow_chains calls w')"

definition assign_start ::
  "vref option \<Rightarrow> vref option \<Rightarrow> ('i, 'o) world \<Rightarrow> (('i, 'o) world) outcome" where
  "assign_start start restart w =
     Inr (w\<lparr>graph := (graph w)\<lparr>starting_vertex := start, restarting_vertex := restart\<rparr>\<rparr>)"

definition follows_protocol ::
  "('i, 'o, 'a) hooks \<Rightarrow> (name \<times> vref) list \<Rightarrow> pyobj list list \<Rightarrow> vref option \<Rightarrow> vref option \<Rightarrow> bool" where
  "follows_protocol H regs calls start restart =
     (set_vertices H = register_all regs \<and> set_edges H = flow_chains calls \<and>
      wire_data_flow H = assign_start start restart)"

definition vertices_of :: "pyobj list \<Rightarrow> vref list" where
  \<comment> \<open>the Vertex objects among the arguments of a call\<close>
  "vertices_of args = concat (map (\<lambda>x. case x of VertexObj r \<Rightarrow> [r] | _ \<Rightarrow> []) args)"

definition registered :: "('i, 'o) world \<Rightarrow> vref set" where
  "registered w = snd ` set (vertices (graph w))"



text \<open>
  A graph is synchronised when every registered vertex bears the key it is registered
  under as its name, which is what \<^verbatim>\<open>Vertices.__setitem__\<close> establishes for the
  vertex it stores; a registration that assigns no object to two different keys leaves
  the graph so. Then the invariant of a graph wired by the protocol, which the proofs below carry through the
  calls made while the graph runs: the keys are distinct, every registered vertex bears
  its key as name and is in one of its declared states, the row under its name has its
  declared states as keys and leads to registered names only, and the cursor and the
  restarting vertex are registered.
\<close>

definition synchronised :: "('i, 'o) world \<Rightarrow> bool" where
  \<comment> \<open>every registered vertex bears the key it is registered under as its name\<close>
  "synchronised w = list_all (\<lambda>(k, r). vertex_name (heap w r) = k) (vertices (graph w))"

definition one_key_each :: "(name \<times> vref) list \<Rightarrow> bool" where
  \<comment> \<open>no Vertex object is assigned to two different keys\<close>
  "one_key_each regs = list_all (\<lambda>(k, r). list_all (\<lambda>(k', r'). r' = r \<longrightarrow> k' = k) regs) regs"

definition complete_rows :: "('i, 'o) heap \<Rightarrow> vertices \<Rightarrow> edges \<Rightarrow> bool" where
  "complete_rows h vs es =
     (\<forall>(k, r)\<in>set vs.
        case es k of
          None \<Rightarrow> False
        | Some row \<Rightarrow>
            dom row = set (possible_vertex_states (h r)) \<and>
            (\<forall>s n. row s = Some (Some n) \<longrightarrow> Some n \<in> fst ` set vs))"

definition well_wired :: "('i, 'o) world \<Rightarrow> bool" where
  "well_wired w =
     (distinct (map fst (vertices (graph w))) \<and>
      (\<forall>(k, r)\<in>set (vertices (graph w)).
         vertex_name (heap w r) = k \<and>
         vertex_state (heap w r) \<in> set (possible_vertex_states (heap w r))) \<and>
      complete_rows (heap w) (vertices (graph w)) (edges (graph w)) \<and>
      set_option (active_vertex (graph w)) \<subseteq> registered w \<and>
      set_option (restarting_vertex (graph w)) \<subseteq> registered w)"

subsection \<open>Linear chains\<close>

text \<open>
  \<open>leads_to w r target\<close>: the row of \<open>r\<close> sends the state \<open>r\<close> is in, and every state
  it can be put in, to \<open>target\<close>. A linear chain is a list of vertices each of which
  leads to the name of the next, registered under that name, the last leading to
  \<^verbatim>\<open>None\<close>.
\<close>

definition leads_to :: "('i, 'o) world \<Rightarrow> vref \<Rightarrow> name \<Rightarrow> bool" where
  "leads_to w r target =
     (case edges (graph w) (vertex_name (heap w r)) of
        None \<Rightarrow> False
      | Some row \<Rightarrow>
          list_all (\<lambda>s. row s = Some target)
            (vertex_state (heap w r) # possible_vertex_states (heap w r)))"

fun linear_chain :: "('i, 'o) world \<Rightarrow> vref list \<Rightarrow> bool" where
  "linear_chain w [] = False"
| "linear_chain w [r] = leads_to w r None"
| "linear_chain w (r # r' # rs) =
     (vertex_name (heap w r') \<noteq> None \<and> leads_to w r (vertex_name (heap w r')) \<and>
      map_of (vertices (graph w)) (vertex_name (heap w r')) = Some r' \<and>
      linear_chain w (r' # rs))"

subsection \<open>Example objects\<close>

text \<open>
  Concrete inputs on which the theorems below are instantiated: an environment whose
  vertices all return one output and assign no state, one in which vertex \<open>2\<close> raises
  as long as vertex \<open>1\<close> has pushed nothing, a store of freshly initialised
  vertices, a store whose object \<open>0\<close> declares the states \<^verbatim>\<open>true\<close> and
  \<^verbatim>\<open>false\<close>, a store whose object \<open>0\<close> declares them but is still in the state
  \<^verbatim>\<open>next\<close> that \<^verbatim>\<open>Vertex.__init__\<close> gave it, and graphs built by
  \<^verbatim>\<open>Graph.__init__\<close> from hooks that follow the construction protocol; in
  \<open>ex_twice\<close> the object \<open>0\<close> is registered under two keys, one of which is then
  given to the object \<open>1\<close>; in \<open>ex_stray\<close> an edge is wired out of the object
  \<open>3\<close>, which was created with the name \<^verbatim>\<open>a\<close> and is not registered.
\<close>

type_synonym ex_out = "(string \<times> int) list"

definition ex_env :: "(unit, ex_out, int) env" where
  "ex_env = \<lparr>fn = (\<lambda>r h. Inr (None, [(''n_counts'', 1)])),
             push = (\<lambda>out key value. Inr (out @ [(key, value)]))\<rparr>"

definition ex_pipe_env :: "(unit, ex_out, int) env" where
  "ex_pipe_env =
     \<lparr>fn = (\<lambda>r h. if r = 2 \<and> output_channels (h 1) = [] then Inl OtherError
                    else Inr (None, [(''n_counts'', int (length (output_channels (h r))) + 1)])),
      push = (\<lambda>out key value. Inr (out @ [(key, value)]))\<rparr>"

definition fresh_heap :: "(unit, ex_out) heap" where
  "fresh_heap = (\<lambda>r. Vertex_init () [] None)"

definition two_state_heap :: "(unit, ex_out) heap" where
  "two_state_heap =
     fresh_heap(0 := (fresh_heap 0)\<lparr>vertex_state := ''false'',
                                   possible_vertex_states := [''true'', ''false'']\<rparr>)"

definition ex_hooks ::
  "(name \<times> vref) list \<Rightarrow> pyobj list list \<Rightarrow> vref option \<Rightarrow> vref option \<Rightarrow> (unit, ex_out, int) hooks" where
  "ex_hooks regs calls start restart =
     \<lparr>set_vertices = register_all regs, set_edges = flow_chains calls,
      wire_data_flow = assign_start start restart,
      get_output = (\<lambda>w. Inr []), resolve_input = (\<lambda>w. None)\<rparr>"

definition ex_chain :: "(unit, ex_out) world" where
  "ex_chain =
     state_of (Graph_init
       (ex_hooks [(Some ''a'', 1), (Some ''b'', 2), (Some ''c'', 3)]
          [[VertexObj 1, VertexObj 2, VertexObj 3]] (Some 1) (Some 2))
       () [] fresh_heap)"

definition ex_branch :: "(unit, ex_out) world" where
  "ex_branch =
     state_of (Graph_init
       (ex_hooks [(Some ''check'', 0), (Some ''a'', 1), (Some ''b'', 2)]
          [[VertexObj 1, VertexObj 0, StrObj ''false'', VertexObj 1],
           [VertexObj 0, StrObj ''true'', VertexObj 2]] (Some 1) (Some 0))
       () [] two_state_heap)"

definition ex_idle :: "(unit, ex_out) world" where
  "ex_idle =
     state_of (Graph_init (ex_hooks [(Some ''a'', 1)] [] None None) () [] fresh_heap)"

definition unset_heap :: "(unit, ex_out) heap" where
  "unset_heap = fresh_heap(0 := (fresh_heap 0)\<lparr>possible_vertex_states := [''true'', ''false'']\<rparr>)"

definition ex_twice :: "(unit, ex_out) world" where
  "ex_twice =
     state_of (Graph_init
       (ex_hooks [(Some ''b'', 1), (Some ''a'', 0), (Some ''b'', 0), (Some ''b'', 1)] []
          (Some 1) None)
       () [] two_state_heap)"

definition ex_unset :: "(unit, ex_out) world" where
  "ex_unset =
     state_of (Graph_init (ex_hooks [(Some ''check'', 0)] [] (Some 0) None) () [] unset_heap)"



section \<open>Properties\<close>

subsection \<open>Basic facts\<close>

lemma state_of_simps [simp]: "state_of (Inl (e, s)) = s" "state_of (Inr s) = s"
  by (simp_all add: state_of_def)

lemmas ex_defs = ex_chain_def ex_hooks_def fresh_heap_def ex_env_def Graph_init_def Graph_new_def
  Vertex_init_def DEFAULT_STATE_def Graph_vertices_setitem_def Vertices_setitem_def with_vertices_def
  Graph_initialize_edges_def with_edges_def Edges_initialize_def Edges_setitem_def on_edges_def
  assign_start_def with_active_def warn_def dead_end_def vertex.defs graph.defs
  ex_branch_def two_state_heap_def ex_idle_def format_name_def

lemmas ex_defs2 = ex_defs ex_twice_def ex_unset_def unset_heap_def


lemma dead_end_eq: "dead_end states s = (if s \<in> set states then Some None else None)"
  by (induction states) (simp_all add: dead_end_def)

lemma dom_dead_end: "dom (dead_end states) = set states"
  by (auto simp: dead_end_eq dom_def split: if_splits)

(* frame of Vertex_execute *)
lemma update_and_archive_frame:
  "\<exists>out'. state_of (update_and_archive P d v) = v\<lparr>output_channels := out'\<rparr>"
  by (auto simp: update_and_archive_def state_of_def update_archive_def split: sum.splits prod.splits)

lemma assigned_frame:
  assumes "(case assigned of None \<Rightarrow> Inr v0 | Some s \<Rightarrow> set_vertex_state s v0) = Inr v"
  shows "\<exists>s. v = v0\<lparr>vertex_state := s\<rparr> \<and> (s = vertex_state v0 \<or> s \<in> set (possible_vertex_states v0))"
proof (cases assigned)
  case None
  with assms have "v = v0\<lparr>vertex_state := vertex_state v0\<rparr>" by simp
  then show ?thesis by blast
next
  case (Some s)
  with assms have "v = v0\<lparr>vertex_state := s\<rparr> \<and> s \<in> set (possible_vertex_states v0)"
    by (auto simp: set_vertex_state_def split: if_splits)
  then show ?thesis by blast
qed

lemma Vertex_execute_frame:
  "\<exists>s out'. state_of (Vertex_execute P r h) = h(r := (h r)\<lparr>vertex_state := s, output_channels := out'\<rparr>)
     \<and> (s = vertex_state (h r) \<or> s \<in> set (possible_vertex_states (h r)))"
proof (cases "fn P r h")
  case (Inl e)
  then have "state_of (Vertex_execute P r h) = h"
    by (simp add: Vertex_execute_def state_of_def)
  moreover have "h = h(r := (h r)\<lparr>vertex_state := vertex_state (h r), output_channels := output_channels (h r)\<rparr>)"
    by simp
  ultimately show ?thesis by metis
next
  case (Inr p)
  obtain assigned d where p: "p = (assigned, d)" by (cases p)
  show ?thesis
  proof (cases "case assigned of None \<Rightarrow> Inr (h r) | Some s \<Rightarrow> set_vertex_state s (h r)")
    case (Inl ev)
    obtain e v where ev: "ev = (e, v)" by (cases ev)
    from Inl ev have "v = h r"
      by (auto simp: set_vertex_state_def split: option.splits if_splits)
    with Inl Inr p ev have "state_of (Vertex_execute P r h) = h"
      by (simp add: Vertex_execute_def state_of_def)
    moreover have "h = h(r := (h r)\<lparr>vertex_state := vertex_state (h r), output_channels := output_channels (h r)\<rparr>)"
      by simp
    ultimately show ?thesis by metis
  next
    case (Inr v)
    then obtain s where v: "v = (h r)\<lparr>vertex_state := s\<rparr>"
      and s: "s = vertex_state (h r) \<or> s \<in> set (possible_vertex_states (h r))"
      using assigned_frame by blast
    obtain out' where o: "state_of (update_and_archive P d v) = v\<lparr>output_channels := out'\<rparr>"
      using update_and_archive_frame[of P d v] by auto
    have "state_of (Vertex_execute P r h) = h(r := state_of (update_and_archive P d v))"
      using Inr \<open>fn P r h = Inr p\<close> p
      by (auto simp: Vertex_execute_def state_of_def split: sum.splits prod.splits)
    with o v s show ?thesis by auto
  qed
qed

lemma Vertex_execute_name:
  "vertex_name (state_of (Vertex_execute P r h) r') = vertex_name (h r')"
  using Vertex_execute_frame[of P r h] by auto

lemma Vertex_execute_states:
  "possible_vertex_states (state_of (Vertex_execute P r h) r') = possible_vertex_states (h r')"
  using Vertex_execute_frame[of P r h] by auto

lemma Vertex_execute_other:
  "r' \<noteq> r \<Longrightarrow> state_of (Vertex_execute P r h) r' = h r'"
  using Vertex_execute_frame[of P r h] by auto

lemma heap_execute_active:
  "heap (state_of (execute_active P r w)) = state_of (Vertex_execute P r (heap w))"
  by (auto simp: execute_active_def split: sum.splits)

lemma graph_execute_active:
  "graph (state_of (execute_active P r w)) = graph w"
  by (auto simp: execute_active_def split: sum.splits)

lemma heap_on_edges: "heap (state_of (on_edges f w)) = heap w"
  by (auto simp: on_edges_def with_edges_def split: sum.splits)

lemma heap_initialize_edges: "heap (state_of (Graph_initialize_edges w)) = heap w"
  by (auto simp: Graph_initialize_edges_def with_edges_def split: sum.splits)

lemma heap_step: "heap (state_of (Graph_step w)) = heap w"
  by (auto simp: Graph_step_def with_active_def split: option.splits)

lemma heap_reset: "heap (state_of (Graph_reset w)) = heap w"
  by (auto simp: Graph_reset_def with_active_def warn_def Let_def)

lemma name_assign_state:
  "vertex_name (heap (state_of (assign_vertex_state r s w)) r') = vertex_name (heap w r')"
  by (auto simp: assign_vertex_state_def set_vertex_state_def)

lemma name_vertices_setitem:
  "vertex_name (heap (state_of (Graph_vertices_setitem key value w)) r') =
     (if value = VertexObj r' then key else vertex_name (heap w r'))"
  by (cases "value") (auto simp: Graph_vertices_setitem_def Vertices_setitem_def with_vertices_def)

lemma name_apply_op:
  "vertex_name (heap (state_of (apply_op P c w)) r) =
     (case c of VerticesSet key value \<Rightarrow> if value = VertexObj r then key else vertex_name (heap w r)
      | _ \<Rightarrow> vertex_name (heap w r))"
  by (cases c)
     (simp_all add: name_vertices_setitem heap_on_edges heap_initialize_edges heap_execute_active
        Vertex_execute_name name_assign_state heap_step heap_reset)

lemma name_run_ops:
  assumes "vertex_name (heap w r) = k"
    and "\<forall>c\<in>set ops. \<forall>k'. c = VerticesSet k' (VertexObj r) \<longrightarrow> k' = k"
  shows "vertex_name (heap (run_ops P ops w) r) = k"
  using assms
proof (induction ops arbitrary: w)
  case Nil
  then show ?case by (simp add: run_ops_def)
next
  case (Cons c ops)
  have "vertex_name (heap (state_of (apply_op P c w)) r) = k"
    unfolding name_apply_op using Cons.prems by (auto split: op.splits)
  moreover have "run_ops P (c # ops) w = run_ops P ops (state_of (apply_op P c w))"
    by (simp add: run_ops_def)
  ultimately show ?case using Cons.IH Cons.prems(2) by simp
qed

text \<open>
  Claim C3. Assigning the Vertex object \<open>r\<close> to the key \<open>k\<close> of a graph's
  \<^verbatim>\<open>Vertices\<close> collection (item or attribute style) returns, stores \<open>r\<close> under
  \<open>k\<close> and sets its \<^verbatim>\<open>vertex_name\<close> to \<open>k\<close>; the name is still \<open>k\<close> after
  any further sequence of calls of the module, raising or not, among which \<open>r\<close> is not
  assigned to a different key.
\<close>

theorem insertion_sets_name:
  assumes "\<forall>c\<in>set ops. \<forall>k'. c = VerticesSet k' (VertexObj r) \<longrightarrow> k' = k"
  shows "\<exists>w'. Graph_vertices_setitem k (VertexObj r) w = Inr w' \<and>
               map_of (vertices (graph w')) k = Some r \<and>
               vertex_name (heap w' r) = k \<and>
               vertex_name (heap (run_ops P ops w') r) = k"
proof -
  obtain w' where w': "Graph_vertices_setitem k (VertexObj r) w = Inr w'"
    by (simp add: Graph_vertices_setitem_def Vertices_setitem_def)
  then have n: "vertex_name (heap w' r) = k"
    using name_vertices_setitem[of k "VertexObj r" w r] by simp
  have m: "map_of (vertices (graph w')) k = Some r"
    using w' by (auto simp: Graph_vertices_setitem_def Vertices_setitem_def with_vertices_def update_conv')
  from n assms have "vertex_name (heap (run_ops P ops w') r) = k"
    by (rule name_run_ops)
  with w' n m show ?thesis by blast
qed

theorem insertion_sets_name_witness:
  "\<exists>w'. Graph_vertices_setitem (Some ''a'') (VertexObj 1) ex_chain = Inr w' \<and>
        map_of (vertices (graph w')) (Some ''a'') = Some 1 \<and>
        vertex_name (heap w' 1) = Some ''a'' \<and>
        vertex_name (heap (run_ops ex_env
           [Execute 1, Step, VerticesSet (Some ''z'') (VertexObj 2), VerticesSet (Some ''a'') (VertexObj 1),
            AssignState 1 ''next'', Reset] w') 1) = Some ''a''"
proof -
  have "\<forall>c\<in>set [Execute 1, Step, VerticesSet (Some ''z'') (VertexObj 2),
           VerticesSet (Some ''a'') (VertexObj 1), AssignState 1 ''next'', Reset].
          \<forall>k'. c = VerticesSet k' (VertexObj 1) \<longrightarrow> k' = Some ''a''"
    by simp
  then show ?thesis by (rule insertion_sets_name)
qed

lemma set_flow_chain_skip:
  "\<forall>r. x \<noteq> VertexObj r \<Longrightarrow> set_flow_chain h (x # y # ys) es = set_flow_chain h (y # ys) es"
  by (cases x) simp_all

lemma set_flow_chain_prefix_cons:
  "set_flow_chain h (pre @ VertexObj v # z # rest) es =
     (case set_flow_chain h (pre @ [VertexObj v]) es of
        Inl e \<Rightarrow> Inl e
      | Inr es1 \<Rightarrow> set_flow_chain h (VertexObj v # z # rest) es1)"
proof -
  define K where "K = set_flow_chain h (VertexObj v # z # rest)"
  define tl where "tl = VertexObj v # z # rest"
  have "set_flow_chain h (pre @ tl) es =
     (case set_flow_chain h (pre @ [VertexObj v]) es of Inl e \<Rightarrow> Inl e | Inr es1 \<Rightarrow> K es1)"
  proof (induction pre arbitrary: es)
    case Nil
    show ?case by (simp only: K_def tl_def append_Nil set_flow_chain.simps(2) sum.case)
  next
    case (Cons x pre)
    obtain y ys ys1 where t: "pre @ tl = y # ys"
      and t1: "pre @ [VertexObj v] = y # ys1"
      and hd: "(\<exists>s. y = StrObj s) \<longrightarrow> (\<exists>a as as1. ys = a # as \<and> ys1 = a # as1)"
    proof (cases pre)
      case Nil
      then show ?thesis using that[of "VertexObj v" "z # rest" "[]"] by (simp add: tl_def)
    next
      case (Cons y pre')
      then show ?thesis
        using that[of y "pre' @ tl" "pre' @ [VertexObj v]"]
        by (cases pre') (simp_all add: tl_def)
    qed
    have IH: "set_flow_chain h (y # ys) es' =
       (case set_flow_chain h (y # ys1) es' of Inl e \<Rightarrow> Inl e | Inr es1 \<Rightarrow> K es1)" for es'
      using Cons.IH[of es'] by (simp only: t t1)
    have "set_flow_chain h (x # y # ys) es =
       (case set_flow_chain h (x # y # ys1) es of Inl e \<Rightarrow> Inl e | Inr es1 \<Rightarrow> K es1)"
    proof (cases "\<exists>u. x = VertexObj u")
      case False
      then show ?thesis by (simp add: set_flow_chain_skip IH)
    next
      case True
      then obtain u where x: "x = VertexObj u" by blast
      show ?thesis
      proof (cases "\<exists>s. y = StrObj s")
        case True
        then obtain s a as as1 where "y = StrObj s" "ys = a # as" "ys1 = a # as1"
          using hd by blast
        then show ?thesis
          using IH by (cases a) (simp_all add: x split: option.split)
      next
        case False
        then show ?thesis
          using IH by (cases y) (simp_all add: x split: option.split)
      qed
    qed
    then show ?case by (simp only: append_Cons t t1)
  qed
  then show ?thesis by (simp only: K_def tl_def)
qed

text \<open>
  Claim C6. A call of \<^verbatim>\<open>set_flow_chain\<close> whose arguments ask for an edge out of
  the vertex \<open>v\<close> on the explicitly named state \<open>s\<close> towards the vertex \<open>w\<close>, with
  \<open>s\<close> not among the declared states of \<open>v\<close>, raises \<^verbatim>\<open>KeyError\<close> once the requests
  written before \<open>v\<close> have been served; the table is then as those requests left it, so
  the edge on \<open>s\<close> is not set.
\<close>

theorem undeclared_state_rejected:
  assumes "s \<notin> set (possible_vertex_states (h v))"
    and "set_flow_chain h (pre @ [VertexObj v]) es = Inr es1"
  shows "set_flow_chain h (pre @ VertexObj v # StrObj s # VertexObj w # post) es = Inl (KeyError, es1)"
  using assms by (simp add: set_flow_chain_prefix_cons)

theorem undeclared_state_rejected_witness:
  "''maybe'' \<notin> set (possible_vertex_states (heap ex_branch 0)) \<and>
   set_flow_chain (heap ex_branch) ([VertexObj 1] @ [VertexObj 0]) (edges (graph ex_branch)) =
     Inr (state_of (set_flow_chain (heap ex_branch) [VertexObj 1, VertexObj 0] (edges (graph ex_branch)))) \<and>
   set_flow_chain (heap ex_branch)
       ([VertexObj 1] @ VertexObj 0 # StrObj ''maybe'' # VertexObj 2 # []) (edges (graph ex_branch)) =
     Inl (KeyError,
       state_of (set_flow_chain (heap ex_branch) [VertexObj 1, VertexObj 0] (edges (graph ex_branch))))"
proof -
  have s: "''maybe'' \<notin> set (possible_vertex_states (heap ex_branch 0))"
    by (simp add: ex_defs)
  have p: "set_flow_chain (heap ex_branch) ([VertexObj 1] @ [VertexObj 0]) (edges (graph ex_branch)) =
     Inr (state_of (set_flow_chain (heap ex_branch) [VertexObj 1, VertexObj 0] (edges (graph ex_branch))))"
    by (simp add: ex_defs)
  from undeclared_state_rejected[OF s p, of 2 "[]"] s p show ?thesis by blast
qed

text \<open>
  Claim C10. For a vertex \<open>r\<close> that has a row in the table, \<^verbatim>\<open>Edges.__setitem__\<close>
  under its own name, and \<^verbatim>\<open>Edges.initialize\<close>, return and replace that row by a
  fresh one, whatever the row held: its keys are the declared states of \<open>r\<close> and each
  of them leads to \<^verbatim>\<open>None\<close>.
\<close>

theorem reinsertion_resets_row:
  assumes "vertex_name (h r) \<in> dom es"
  shows "Edges_setitem (vertex_name (h r)) (VertexObj r) h es =
           Inr (es(vertex_name (h r) \<mapsto> dead_end (possible_vertex_states (h r)))) \<and>
         Edges_initialize (VertexObj r) h es =
           Inr (es(vertex_name (h r) \<mapsto> dead_end (possible_vertex_states (h r)))) \<and>
         dom (dead_end (possible_vertex_states (h r))) = set (possible_vertex_states (h r)) \<and>
         (\<forall>s\<in>set (possible_vertex_states (h r)).
            dead_end (possible_vertex_states (h r)) s = Some None)"
  by (simp add: Edges_setitem_def Edges_initialize_def dom_dead_end dead_end_eq)

theorem reinsertion_resets_row_witness:
  "vertex_name (heap ex_branch 0) \<in> dom (edges (graph ex_branch)) \<and>
   (\<exists>row. edges (graph ex_branch) (Some ''check'') = Some row \<and> row ''true'' = Some (Some ''b'')) \<and>
   Edges_setitem (Some ''check'') (VertexObj 0) (heap ex_branch) (edges (graph ex_branch)) =
     Inr ((edges (graph ex_branch))(Some ''check'' \<mapsto> dead_end [''true'', ''false''])) \<and>
   Edges_initialize (VertexObj 0) (heap ex_branch) (edges (graph ex_branch)) =
     Inr ((edges (graph ex_branch))(Some ''check'' \<mapsto> dead_end [''true'', ''false''])) \<and>
   dom (dead_end [''true'', ''false'']) = {''true'', ''false''} \<and>
   dead_end [''true'', ''false''] ''true'' = Some None \<and>
   dead_end [''true'', ''false''] ''false'' = Some None"
proof -
  have d: "vertex_name (heap ex_branch 0) \<in> dom (edges (graph ex_branch))"
    by (simp add: ex_defs)
  have o: "\<exists>row. edges (graph ex_branch) (Some ''check'') = Some row \<and> row ''true'' = Some (Some ''b'')"
    by (simp add: ex_defs)
  have n: "vertex_name (heap ex_branch 0) = Some ''check''"
    "possible_vertex_states (heap ex_branch 0) = [''true'', ''false'']"
    by (simp_all add: ex_defs)
  from reinsertion_resets_row[of "heap ex_branch" 0 "edges (graph ex_branch)"] d o show ?thesis
    unfolding n by auto
qed

lemma Edges_initialize_vertex:
  "Edges_initialize (VertexObj r) h es =
     Inr (es(vertex_name (h r) \<mapsto> dead_end (possible_vertex_states (h r))))"
  by (simp add: Edges_setitem_def Edges_initialize_def)

lemma initialize_all_returns: "\<exists>es'. initialize_all h rs es = Inr es'"
  by (induction rs arbitrary: es) (simp_all add: Edges_initialize_vertex)

lemma Graph_initialize_edges_returns:
  "\<exists>w'. Graph_initialize_edges w = Inr w'"
  using initialize_all_returns[of "heap w" "map snd (vertices (graph w))" "edges (graph w)"]
  by (auto simp: Graph_initialize_edges_def)

lemma Graph_while_at_rest:
  "active_vertex (graph w) = None \<Longrightarrow> Graph_while P w = Some (Inr w)"
  by (subst Graph_while.simps) simp

text \<open>
  Claim C7. When the three set-up methods return and leave \<^verbatim>\<open>starting_vertex\<close>
  unset, \<^verbatim>\<open>Graph.__init__\<close> returns: it appends exactly the warning to the log and
  leaves the cursor \<^verbatim>\<open>None\<close>. On that graph the loop of \<^verbatim>\<open>Graph.function\<close>
  returns at once with the state unchanged, \<^verbatim>\<open>function\<close> is \<^verbatim>\<open>get_output\<close> alone,
  and \<^verbatim>\<open>execute\<close> terminates without having executed any child.
\<close>

theorem no_starting_vertex:
  assumes "set_vertices H \<lparr>heap = h, graph = Graph_new i o', logged = [], executions = []\<rparr> = Inr w1"
    and "set_edges H (state_of (Graph_initialize_edges w1)) = Inr w3"
    and "wire_data_flow H w3 = Inr w4"
    and "starting_vertex (graph w4) = None"
  shows "\<exists>w. Graph_init H i o' h = Inr w \<and>
             logged w = logged w4 @ [''Starting vertex not set for '' @ format_name (vertex_name (graph w4))] \<and>
             active_vertex (graph w) = None \<and>
             Graph_while P w = Some (Inr w) \<and>
             Graph_function P H w =
               Some (case get_output H w of Inl e \<Rightarrow> Inl (e, w) | Inr d \<Rightarrow> Inr (d, w)) \<and>
             (\<exists>res. Graph_execute P H w = Some res \<and> executions (state_of res) = executions w)"
proof -
  define w where "w = with_active (warn (''Starting vertex not set for '' @ format_name (vertex_name (graph w4))) w4) None"
  obtain w2 where w2: "Graph_initialize_edges w1 = Inr w2"
    using Graph_initialize_edges_returns by blast
  have init: "Graph_init H i o' h = Inr w"
    using assms w2 by (simp add: Graph_init_def w_def Let_def warn_def)
  have lg: "logged w = logged w4 @ [''Starting vertex not set for '' @ format_name (vertex_name (graph w4))]"
    by (simp add: w_def warn_def with_active_def)
  have act: "active_vertex (graph w) = None"
    by (simp add: w_def with_active_def)
  have loop: "Graph_while P w = Some (Inr w)"
    using act by (rule Graph_while_at_rest)
  have f: "Graph_function P H w =
      Some (case get_output H w of Inl e \<Rightarrow> Inl (e, w) | Inr d \<Rightarrow> Inr (d, w))"
    by (simp add: Graph_function_def loop split: sum.splits)
  have "\<exists>res. Graph_execute P H w = Some res \<and> executions (state_of res) = executions w"
    by (auto simp: Graph_execute_def f split: option.splits sum.splits prod.splits)
  with init lg act loop f show ?thesis by blast
qed

theorem no_starting_vertex_witness:
  "\<exists>w. Graph_init (ex_hooks [(Some ''a'', 1)] [] None None) () [] fresh_heap = Inr w \<and>
       logged w = [''Starting vertex not set for None''] \<and>
       active_vertex (graph w) = None \<and>
       Graph_while ex_env w = Some (Inr w) \<and>
       (\<exists>res. Graph_execute ex_env (ex_hooks [(Some ''a'', 1)] [] None None) w = Some res \<and>
              executions (state_of res) = [])"
proof -
  define H where "H = ex_hooks [(Some ''a'', 1)] [] None None"
  define w0 :: "(unit, ex_out) world"
    where "w0 = \<lparr>heap = fresh_heap, graph = Graph_new () [], logged = [], executions = []\<rparr>"
  define w1 where "w1 = state_of (set_vertices H w0)"
  define w3 where "w3 = state_of (set_edges H (state_of (Graph_initialize_edges w1)))"
  define w4 where "w4 = state_of (wire_data_flow H w3)"
  have 1: "set_vertices H w0 = Inr w1"
    by (simp add: w1_def H_def w0_def ex_defs)
  have 2: "set_edges H (state_of (Graph_initialize_edges w1)) = Inr w3"
    by (simp add: w3_def H_def ex_defs)
  have 3: "wire_data_flow H w3 = Inr w4"
    by (simp add: w4_def H_def ex_defs)
  have 4: "starting_vertex (graph w4) = None"
    by (simp add: w4_def H_def ex_defs)
  have 5: "logged w4 = []" "vertex_name (graph w4) = None" "executions w4 = []"
    by (simp_all add: w4_def w3_def w1_def w0_def H_def ex_defs)
  from no_starting_vertex[OF 1[unfolded w0_def] 2 3 4, of ex_env]
  obtain w where w: "Graph_init H () [] fresh_heap = Inr w"
    "logged w = logged w4 @ [''Starting vertex not set for '' @ format_name (vertex_name (graph w4))]"
    "active_vertex (graph w) = None" "Graph_while ex_env w = Some (Inr w)"
    "\<exists>res. Graph_execute ex_env H w = Some res \<and> executions (state_of res) = executions w"
    by blast
  have "executions w = []"
    using w(1) 1 2 3 4 5 initialize_all_returns[of "heap w1" "map snd (vertices (graph w1))" "edges (graph w1)"]
    by (auto simp: Graph_init_def w0_def Let_def with_active_def warn_def Graph_initialize_edges_def)
  with w 5 show ?thesis
    unfolding H_def by (auto simp: format_name_def)
qed

lemma leads_to_unique: "leads_to w r t1 \<Longrightarrow> leads_to w r t2 \<Longrightarrow> t1 = t2"
  by (cases "edges (graph w) (vertex_name (heap w r))") (simp_all add: leads_to_def)

lemma leads_to_cong:
  assumes "edges (graph w') = edges (graph w)" and "heap w' r = heap w r"
  shows "leads_to w' r t = leads_to w r t"
  unfolding leads_to_def assms ..

lemma linear_chain_cong:
  "edges (graph w') = edges (graph w) \<Longrightarrow> vertices (graph w') = vertices (graph w) \<Longrightarrow>
   \<forall>r\<in>set rs. heap w' r = heap w r \<Longrightarrow> linear_chain w' rs = linear_chain w rs"
proof (induction w rs rule: linear_chain.induct)
  case (1 w)
  show ?case by simp
next
  case (2 w r)
  then show ?case by (simp add: leads_to_cong[of w' w])
next
  case (3 w r r' rs)
  then show ?case by (simp add: leads_to_cong[of w' w])
qed

lemma linear_chain_suffix: "linear_chain w (as @ r # ys) \<Longrightarrow> linear_chain w (r # ys)"
proof (induction as)
  case Nil
  then show ?case by simp
next
  case (Cons a as)
  then show ?case by (cases as) simp_all
qed

lemma linear_chain_unique:
  "linear_chain w (r # l1) \<Longrightarrow> linear_chain w (r # l2) \<Longrightarrow> l1 = l2"
proof (induction l1 arbitrary: r l2)
  case Nil
  show ?case
  proof (cases l2)
    case Nil
    then show ?thesis by simp
  next
    case (Cons b l2')
    with Nil.prems have l: "leads_to w r None" "leads_to w r (vertex_name (heap w b))"
      and n: "vertex_name (heap w b) \<noteq> None" by simp_all
    from l have "None = vertex_name (heap w b)" by (rule leads_to_unique)
    with n show ?thesis by simp
  qed
next
  case (Cons a l1)
  from Cons.prems(1) have a: "leads_to w r (vertex_name (heap w a))"
    "vertex_name (heap w a) \<noteq> None"
    "map_of (vertices (graph w)) (vertex_name (heap w a)) = Some a"
    "linear_chain w (a # l1)" by simp_all
  show ?case
  proof (cases l2)
    case Nil
    with Cons.prems(2) have "leads_to w r None" by simp
    from this a(1) have "None = vertex_name (heap w a)" by (rule leads_to_unique)
    with a(2) show ?thesis by simp
  next
    case l2: (Cons b l2')
    with Cons.prems(2) have b: "leads_to w r (vertex_name (heap w b))"
      "map_of (vertices (graph w)) (vertex_name (heap w b)) = Some b"
      "linear_chain w (b # l2')" by simp_all
    from a(1) b(1) have nm: "vertex_name (heap w a) = vertex_name (heap w b)"
      by (rule leads_to_unique)
    from a(3) have "Some a = map_of (vertices (graph w)) (vertex_name (heap w a))"
      by (rule sym)
    also have "\<dots> = map_of (vertices (graph w)) (vertex_name (heap w b))"
      by (simp only: nm)
    also note b(2)
    finally have "a = b" by simp
    with a(4) b(3) have "l1 = l2'" by (intro Cons.IH[of b l2']) simp_all
    with \<open>a = b\<close> l2 show ?thesis by simp
  qed
qed

lemma linear_chain_head_fresh:
  assumes "linear_chain w (r # rs)"
  shows "r \<notin> set rs"
proof
  assume "r \<in> set rs"
  then obtain xs ys where rs: "rs = xs @ r # ys" by (auto dest: split_list)
  with assms have "linear_chain w ((r # xs) @ r # ys)" by simp
  then have "linear_chain w (r # ys)" by (rule linear_chain_suffix)
  with assms have "rs = ys" by (rule linear_chain_unique)
  with rs have "length ys = length (xs @ r # ys)" by simp
  then show False by simp
qed

lemma leads_toD:
  assumes "leads_to w r t"
    and "s = vertex_state (heap w r) \<or> s \<in> set (possible_vertex_states (heap w r))"
  shows "\<exists>row. edges (graph w) (vertex_name (heap w r)) = Some row \<and> row s = Some t"
  using assms by (auto simp: leads_to_def list_all_iff split: option.splits)

lemma Graph_while_iteration:
  assumes "active_vertex (graph w) = Some r" and "execute_active P r w = Inr w1"
    and "Graph_step w1 = Inr w2"
  shows "Graph_while P w = Graph_while P w2"
  using assms by (subst Graph_while.simps) simp

lemma Graph_while_child_raises:
  assumes "active_vertex (graph w) = Some r" and "execute_active P r w = Inl x"
  shows "Graph_while P w = Some (Inl x)"
  using assms by (subst Graph_while.simps) simp

lemma chain_run_cases:
  assumes "linear_chain w rs" and "active_vertex (graph w) = Some (hd rs)"
  shows "(\<exists>w'. Graph_while P w = Some (Inr w') \<and> executions w' = executions w @ rs \<and>
               active_vertex (graph w') = None) \<or>
         (\<exists>e w' k. Graph_while P w = Some (Inl (e, w')) \<and> k < length rs \<and>
               executions w' = executions w @ take (Suc k) rs \<and>
               active_vertex (graph w') = Some (rs ! k) \<and>
               (\<exists>h. Vertex_execute P (rs ! k) h = Inl (e, heap w')))"
  using assms
proof (induction rs arbitrary: w)
  case Nil
  then show ?case by simp
next
  case (Cons r rs)
  let ?h = "heap w"
  have act: "active_vertex (graph w) = Some r" using Cons.prems(2) by simp
  show ?case
  proof (cases "Vertex_execute P r ?h")
    case (Inl x)
    obtain e h' where x: "x = (e, h')" by (cases x)
    define w' where "w' = w\<lparr>heap := h', executions := executions w @ [r]\<rparr>"
    have "execute_active P r w = Inl (e, w')"
      by (simp add: execute_active_def Inl x w'_def)
    with act have "Graph_while P w = Some (Inl (e, w'))"
      by (rule Graph_while_child_raises)
    moreover have "executions w' = executions w @ take (Suc 0) (r # rs)"
      "active_vertex (graph w') = Some ((r # rs) ! 0)"
      "Vertex_execute P ((r # rs) ! 0) ?h = Inl (e, heap w')"
      using act Inl x by (simp_all add: w'_def)
    ultimately have "\<exists>e w' k. Graph_while P w = Some (Inl (e, w')) \<and> k < length (r # rs) \<and>
               executions w' = executions w @ take (Suc k) (r # rs) \<and>
               active_vertex (graph w') = Some ((r # rs) ! k) \<and>
               (\<exists>h. Vertex_execute P ((r # rs) ! k) h = Inl (e, heap w'))"
      by (intro exI[of _ e] exI[of _ w'] exI[of _ 0]) blast
    then show ?thesis by blast
  next
    case (Inr h')
    note ex = Inr
    obtain s out' where h': "h' = ?h(r := (?h r)\<lparr>vertex_state := s, output_channels := out'\<rparr>)"
      and s: "s = vertex_state (?h r) \<or> s \<in> set (possible_vertex_states (?h r))"
      using Vertex_execute_frame[of P r ?h] ex by auto
    define w1 where "w1 = w\<lparr>heap := h', executions := executions w @ [r]\<rparr>"
    have e1: "execute_active P r w = Inr w1"
      by (simp add: execute_active_def ex w1_def)
    have act1: "active_vertex (graph w1) = Some r" using act by (simp add: w1_def)
    have nm: "vertex_name (heap w1 r) = vertex_name (?h r)" by (simp add: w1_def h')
    have st: "vertex_state (heap w1 r) = s" by (simp add: w1_def h')
    show ?thesis
    proof (cases rs)
      case Nil
      with Cons.prems(1) have "leads_to w r None" by simp
      then obtain row where row: "edges (graph w) (vertex_name (?h r)) = Some row"
        and "row s = Some None"
        using s leads_toD by blast
      then have "Graph_step w1 = Inr (with_active w1 None)"
        using act1 nm st by (simp add: Graph_step_def w1_def)
      then have "Graph_while P w = Graph_while P (with_active w1 None)"
        using act e1 by (intro Graph_while_iteration)
      also have "\<dots> = Some (Inr (with_active w1 None))"
        by (rule Graph_while_at_rest) (simp add: with_active_def)
      finally have "Graph_while P w = Some (Inr (with_active w1 None))" .
      moreover have "executions (with_active w1 None) = executions w @ r # rs"
        "active_vertex (graph (with_active w1 None)) = None"
        using Nil by (simp_all add: with_active_def w1_def)
      ultimately show ?thesis by blast
    next
      case rs: (Cons r' rs')
      from Cons.prems(1) rs obtain n where n: "vertex_name (?h r') = Some n"
        and lt: "leads_to w r (Some n)"
        and reg: "map_of (vertices (graph w)) (Some n) = Some r'"
        and tl: "linear_chain w (r' # rs')"
        by auto
      from lt obtain row where row: "edges (graph w) (vertex_name (?h r)) = Some row"
        and "row s = Some (Some n)"
        using s leads_toD by blast
      define w2 where "w2 = with_active w1 (Some r')"
      have s2: "Graph_step w1 = Inr w2"
        using act1 nm st row \<open>row s = Some (Some n)\<close> reg
        by (simp add: Graph_step_def w1_def w2_def)
      have fresh: "r \<notin> set rs" using Cons.prems(1) by (rule linear_chain_head_fresh)
      have "linear_chain w2 rs = linear_chain w rs"
        using fresh by (intro linear_chain_cong) (auto simp: w2_def w1_def with_active_def h')
      with tl rs have c2: "linear_chain w2 rs" by simp
      have a2: "active_vertex (graph w2) = Some (hd rs)"
        using rs by (simp add: w2_def with_active_def)
      have it: "Graph_while P w = Graph_while P w2"
        using act e1 s2 by (rule Graph_while_iteration)
      have ex2: "executions w2 = executions w @ [r]"
        by (simp add: w2_def w1_def with_active_def)
      from Cons.IH[OF c2 a2] show ?thesis
      proof
        assume "\<exists>w'. Graph_while P w2 = Some (Inr w') \<and> executions w' = executions w2 @ rs \<and>
                 active_vertex (graph w') = None"
        then show ?thesis using it ex2 by auto
      next
        assume "\<exists>e w' k. Graph_while P w2 = Some (Inl (e, w')) \<and> k < length rs \<and>
               executions w' = executions w2 @ take (Suc k) rs \<and>
               active_vertex (graph w') = Some (rs ! k) \<and>
               (\<exists>h. Vertex_execute P (rs ! k) h = Inl (e, heap w'))"
        then obtain e w' k where k: "Graph_while P w2 = Some (Inl (e, w'))" "k < length rs"
          "executions w' = executions w2 @ take (Suc k) rs"
          "active_vertex (graph w') = Some (rs ! k)"
          "\<exists>h. Vertex_execute P (rs ! k) h = Inl (e, heap w')" by blast
        have "Graph_while P w = Some (Inl (e, w'))" "Suc k < length (r # rs)"
          "executions w' = executions w @ take (Suc (Suc k)) (r # rs)"
          "active_vertex (graph w') = Some ((r # rs) ! Suc k)"
          "\<exists>h. Vertex_execute P ((r # rs) ! Suc k) h = Inl (e, heap w')"
          using k it ex2 by simp_all
        then show ?thesis by blast
      qed
    qed
  qed
qed

text \<open>
  Claim C1. On a graph whose table forms a linear chain over the vertices \<open>rs\<close>, with
  the cursor on the first of them, the loop of \<^verbatim>\<open>Graph.function\<close> terminates,
  whatever the children compute. When it returns, \<^verbatim>\<open>function\<close> goes on to
  \<^verbatim>\<open>get_output\<close>, the children executed are exactly \<open>rs\<close>, in this order and once
  each, and the cursor is \<^verbatim>\<open>None\<close>. The only other outcome is that the
  \<^verbatim>\<open>execute\<close> of one of the children raises: then \<^verbatim>\<open>function\<close> raises that
  exception, the children executed are the chain up to that child, and the cursor is
  still on it. The step along the table never raises.
\<close>

theorem linear_chain_terminates:
  assumes "linear_chain w rs" and "active_vertex (graph w) = Some (hd rs)"
  shows "\<exists>res. Graph_while P w = Some res \<and>
           Graph_function P H w =
             Some (case res of
                     Inl x \<Rightarrow> Inl x
                   | Inr w' \<Rightarrow>
                       (case get_output H w' of Inl e \<Rightarrow> Inl (e, w') | Inr d \<Rightarrow> Inr (d, w'))) \<and>
           (case res of
              Inr w' \<Rightarrow> executions w' = executions w @ rs \<and> active_vertex (graph w') = None
            | Inl (e, w') \<Rightarrow>
                (\<exists>k<length rs. executions w' = executions w @ take (Suc k) rs \<and>
                    active_vertex (graph w') = Some (rs ! k) \<and>
                    (\<exists>h. Vertex_execute P (rs ! k) h = Inl (e, heap w'))))"
proof -
  from chain_run_cases[OF assms, of P] show ?thesis
  proof
    assume "\<exists>w'. Graph_while P w = Some (Inr w') \<and> executions w' = executions w @ rs \<and>
               active_vertex (graph w') = None"
    then obtain w' where w': "Graph_while P w = Some (Inr w')"
      "executions w' = executions w @ rs" "active_vertex (graph w') = None" by blast
    then have "Graph_function P H w =
        Some (case get_output H w' of Inl e \<Rightarrow> Inl (e, w') | Inr d \<Rightarrow> Inr (d, w'))"
      by (simp add: Graph_function_def split: sum.splits)
    with w' show ?thesis by (intro exI[of _ "Inr w'"]) simp
  next
    assume "\<exists>e w' k. Graph_while P w = Some (Inl (e, w')) \<and> k < length rs \<and>
               executions w' = executions w @ take (Suc k) rs \<and>
               active_vertex (graph w') = Some (rs ! k) \<and>
               (\<exists>h. Vertex_execute P (rs ! k) h = Inl (e, heap w'))"
    then obtain e w' k where k: "Graph_while P w = Some (Inl (e, w'))" "k < length rs"
      "executions w' = executions w @ take (Suc k) rs"
      "active_vertex (graph w') = Some (rs ! k)"
      "\<exists>h. Vertex_execute P (rs ! k) h = Inl (e, heap w')" by blast
    then have "Graph_function P H w = Some (Inl (e, w'))"
      by (simp add: Graph_function_def)
    with k show ?thesis by (intro exI[of _ "Inl (e, w')"]) auto
  qed
qed

lemma ex_pipe_run:
  "map_option (map_sum fst (\<lambda>w. (executions w, active_vertex (graph w))))
     (Graph_while ex_pipe_env ex_chain) = Some (Inr ([1, 2, 3], None))"
  by (simp add: Graph_while.simps execute_active_def Vertex_execute_def update_and_archive_def
      update_archive_def Graph_step_def ex_pipe_env_def ex_defs)

theorem linear_chain_terminates_witness:
  "linear_chain ex_chain [1, 2, 3] \<and> active_vertex (graph ex_chain) = Some (hd [1, 2, 3]) \<and>
   (\<exists>w'. Graph_while ex_pipe_env ex_chain = Some (Inr w') \<and>
      Graph_function ex_pipe_env (ex_hooks [] [] None None) ex_chain = Some (Inr ([], w')) \<and>
      executions w' = [1, 2, 3] \<and>
      active_vertex (graph w') = None)"
proof -
  have c: "linear_chain ex_chain [1, 2, 3]"
    by (simp add: ex_defs leads_to_def)
  have a: "active_vertex (graph ex_chain) = Some (hd [1, 2, 3])"
    by (simp add: ex_defs)
  have e: "executions ex_chain = []"
    by (simp add: ex_defs)
  have g: "get_output (ex_hooks [] [] None None) w' = Inr []" for w' :: "(unit, ex_out) world"
    by (simp add: ex_hooks_def)
  from linear_chain_terminates[OF c a, of ex_pipe_env "ex_hooks [] [] None None"]
  obtain res where res: "Graph_while ex_pipe_env ex_chain = Some res"
    "Graph_function ex_pipe_env (ex_hooks [] [] None None) ex_chain =
       Some (case res of Inl x \<Rightarrow> Inl x
             | Inr w' \<Rightarrow> (case get_output (ex_hooks [] [] None None) w' of
                            Inl e \<Rightarrow> Inl (e, w') | Inr d \<Rightarrow> Inr (d, w')))"
    "case res of
       Inr w' \<Rightarrow> executions w' = executions ex_chain @ [1, 2, 3] \<and> active_vertex (graph w') = None
     | Inl (e, w') \<Rightarrow>
         (\<exists>k<length [1, 2, 3 :: nat]. executions w' = executions ex_chain @ take (Suc k) [1, 2, 3] \<and>
             active_vertex (graph w') = Some ([1, 2, 3] ! k) \<and>
             (\<exists>h. Vertex_execute ex_pipe_env ([1, 2, 3] ! k) h = Inl (e, heap w')))"
    by blast
  from ex_pipe_run res(1) obtain w' where w': "res = Inr w'"
    by (cases res) auto
  with res e g c a show ?thesis by auto
qed

text \<open>
  Claim C4. \<^verbatim>\<open>reset\<close> on a graph whose cursor is not \<^verbatim>\<open>None\<close> raises
  \<^verbatim>\<open>ValueError\<close> and leaves the whole state as it was; on a graph whose cursor is
  \<^verbatim>\<open>None\<close> it returns, with the cursor on \<^verbatim>\<open>restarting_vertex\<close>.
\<close>

theorem reset_precondition:
  "(active_vertex (graph w) \<noteq> None \<longrightarrow> Graph_reset w = Inl (ValueError, w)) \<and>
   (active_vertex (graph w) = None \<longrightarrow>
      (\<exists>w'. Graph_reset w = Inr w' \<and> active_vertex (graph w') = restarting_vertex (graph w)))"
  by (simp add: Graph_reset_def Let_def with_active_def warn_def)

theorem reset_precondition_witness:
  "active_vertex (graph ex_chain) = Some 1 \<and>
   Graph_reset ex_chain = Inl (ValueError, ex_chain) \<and>
   active_vertex (graph (with_active ex_chain None)) = None \<and>
   (\<exists>w'. Graph_reset (with_active ex_chain None) = Inr w' \<and> active_vertex (graph w') = Some 2)"
proof -
  have a: "active_vertex (graph ex_chain) = Some 1"
    by (simp add: ex_defs)
  have b: "active_vertex (graph (with_active ex_chain None)) = None"
    by (simp add: with_active_def)
  have r: "restarting_vertex (graph (with_active ex_chain None)) = Some 2"
    by (simp add: ex_defs)
  from reset_precondition[of ex_chain] a
  have 1: "Graph_reset ex_chain = Inl (ValueError, ex_chain)" by simp
  from reset_precondition[of "with_active ex_chain None"] b r
  have 2: "\<exists>w'. Graph_reset (with_active ex_chain None) = Inr w' \<and> active_vertex (graph w') = Some 2"
    by simp
  from a 1 b 2 show ?thesis by blast
qed

text \<open>
  Claim C8. For a value that is not a Vertex, and any key, the assignment into a
  \<^verbatim>\<open>Vertices\<close> collection and the assignment into an \<^verbatim>\<open>Edges\<close> table both
  raise \<^verbatim>\<open>TypeError\<close> and leave the store and the collection as they were.
\<close>

theorem non_vertex_rejected:
  assumes "\<forall>r. x \<noteq> VertexObj r"
  shows "Vertices_setitem k x (h, vs) = Inl (TypeError, (h, vs)) \<and>
         Edges_setitem k x h es = Inl (TypeError, es)"
  using assms by (cases x) (simp_all add: Vertices_setitem_def Edges_setitem_def)

theorem non_vertex_rejected_witness:
  "Vertices_setitem (Some ''a'') (StrObj ''a vertex'') (fresh_heap, []) =
     Inl (TypeError, (fresh_heap, [])) \<and>
   Edges_setitem (Some ''a'') (StrObj ''a vertex'') fresh_heap Map.empty = Inl (TypeError, Map.empty)"
proof -
  have "\<forall>r. StrObj ''a vertex'' \<noteq> VertexObj r" by simp
  then show ?thesis by (rule non_vertex_rejected)
qed

lemma Graph_while_clock:
  assumes run: "Graph_while P w = Some res"
  shows "clock (graph (state_of res)) = clock (graph w) \<and>
         (\<forall>r. clock (heap (state_of res) r) = clock (heap w r))"
proof -
  define Q where "Q = (\<lambda>(pw :: ('a, 'b, 'c) env \<times> ('a, 'b) world) (res :: (('a, 'b) world) outcome).
      clock (graph (state_of res)) = clock (graph (snd pw)) \<and>
      (\<forall>r. clock (heap (state_of res) r) = clock (heap (snd pw) r)))"
  have "Q (P, w) res"
  proof (rule Graph_while.raw_induct[OF _ run])
    fix f :: "('a, 'b, 'c) env \<Rightarrow> ('a, 'b) world \<Rightarrow> (('a, 'b) world) outcome option"
    fix P w res
    assume IH: "\<And>P w y. f P w = Some y \<Longrightarrow> Q (P, w) y"
      and body: "(case active_vertex (graph w) of None \<Rightarrow> Some (Inr w)
          | Some r \<Rightarrow>
              case execute_active P r w of Inl e \<Rightarrow> Some (Inl e)
              | Inr w1 \<Rightarrow>
                  case Graph_step w1 of Inl e \<Rightarrow> Some (Inl e)
                  | Inr w2 \<Rightarrow> f P w2) = Some res"
    show "Q (P, w) res"
    proof (cases "active_vertex (graph w)")
      case None
      with body show ?thesis by (auto simp: Q_def)
    next
      case (Some r)
      have hc: "clock (heap (state_of (execute_active P r w)) r') = clock (heap w r')" for r'
        using Vertex_execute_frame[of P r "heap w"] by (auto simp: heap_execute_active)
      have gc: "graph (state_of (execute_active P r w)) = graph w"
        by (rule graph_execute_active)
      show ?thesis
      proof (cases "execute_active P r w")
        case (Inl x)
        with Some body have "res = Inl x" by simp
        then show ?thesis using hc gc Inl by (cases x) (auto simp: Q_def)
      next
        case (Inr w1)
        have w1: "clock (graph w1) = clock (graph w)" "\<And>r'. clock (heap w1 r') = clock (heap w r')"
          using hc gc Inr by auto
        have sg: "clock (graph (state_of (Graph_step w1))) = clock (graph w1)"
          by (auto simp: Graph_step_def with_active_def split: option.splits)
        show ?thesis
        proof (cases "Graph_step w1")
          case (Inl x)
          with Some Inr body have "res = Inl x" by simp
          then show ?thesis using w1 Inl heap_step[of w1] sg by (cases x) (auto simp: Q_def)
        next
          case w2: (Inr w2)
          have "clock (graph w2) = clock (graph w1)" "heap w2 = heap w1"
            using w2 heap_step[of w1] sg by auto
          moreover from Some Inr w2 body have "f P w2 = Some res" by simp
          then have "Q (P, w2) res" by (rule IH)
          ultimately show ?thesis using w1 by (simp add: Q_def)
        qed
      qed
    qed
  qed
  then show ?thesis by (simp add: Q_def)
qed

lemma Graph_execute_clock:
  assumes "Graph_execute P H w = Some res"
  shows "clock (graph (state_of res)) = clock (graph w) \<and>
         (\<forall>r. clock (heap (state_of res) r) = clock (heap w r))"
proof (cases "resolve_input H w")
  case (Some e)
  with assms show ?thesis by (auto simp: Graph_execute_def)
next
  case None
  show ?thesis
  proof (cases "Graph_while P w")
    case None
    with assms \<open>resolve_input H w = None\<close> show ?thesis
      by (simp add: Graph_execute_def Graph_function_def)
  next
    case (Some lres)
    note c = Graph_while_clock[OF Some]
    show ?thesis
    proof (cases lres)
      case (Inl x)
      with assms Some \<open>resolve_input H w = None\<close> have "res = Inl x"
        by (simp add: Graph_execute_def Graph_function_def)
      with c Inl show ?thesis by simp
    next
      case (Inr w')
      show ?thesis
      proof (cases "get_output H w'")
        case (Inl e)
        with assms Some Inr \<open>resolve_input H w = None\<close> have "res = Inl (e, w')"
          by (simp add: Graph_execute_def Graph_function_def)
        with c Inr show ?thesis by simp
      next
        case d: (Inr output_data)
        obtain out' where o: "state_of (update_and_archive P output_data (graph w')) =
            (graph w')\<lparr>output_channels := out'\<rparr>"
          using update_and_archive_frame[of P output_data "graph w'"] by auto
        from assms Some Inr d \<open>resolve_input H w = None\<close>
        have "graph (state_of res) = state_of (update_and_archive P output_data (graph w'))"
          "heap (state_of res) = heap w'"
          by (auto simp: Graph_execute_def Graph_function_def split: sum.splits prod.splits)
        with o c Inr show ?thesis by simp
      qed
    qed
  qed
qed

lemma clock_apply_op:
  "clock (heap (state_of (apply_op P c w)) r) = clock (heap w r) \<and>
   clock (graph (state_of (apply_op P c w))) = clock (graph w)"
proof (cases c)
  case (VerticesSet key val)
  then show ?thesis
    by (cases val) (auto simp: Graph_vertices_setitem_def Vertices_setitem_def with_vertices_def)
next
  case (EdgesSet key val)
  then show ?thesis by (auto simp: on_edges_def with_edges_def split: sum.splits)
next
  case (EdgesInitialize vertex)
  then show ?thesis by (auto simp: on_edges_def with_edges_def split: sum.splits)
next
  case (SetFlowChain args)
  then show ?thesis by (auto simp: on_edges_def with_edges_def split: sum.splits)
next
  case InitializeEdges
  then show ?thesis by (auto simp: Graph_initialize_edges_def with_edges_def split: sum.splits)
next
  case (Execute r')
  then show ?thesis
    using Vertex_execute_frame[of P r' "heap w"]
    by (auto simp: heap_execute_active graph_execute_active)
next
  case (AssignState r' s)
  then show ?thesis by (auto simp: assign_vertex_state_def set_vertex_state_def)
next
  case Step
  then show ?thesis by (auto simp: Graph_step_def with_active_def split: option.splits)
next
  case Reset
  then show ?thesis by (auto simp: Graph_reset_def with_active_def warn_def Let_def)
qed

text \<open>
  Claim C5, as amended. \<^verbatim>\<open>Vertex.execute\<close> resolves the input and invokes the
  computation; when these return, the state they assign is admitted by the setter and
  every push returns, the call returns with the assigned state and the pushed outputs
  stored in the vertex and nothing else changed. Whether it returns or raises, it leaves
  the \<^verbatim>\<open>clock\<close> of every vertex as it was. So does the \<^verbatim>\<open>execute\<close> of a graph,
  for the graph and for its children, whenever it terminates, and so does every other
  call of the module: \<^verbatim>\<open>clock\<close> is assigned in \<^verbatim>\<open>Vertex.__init__\<close> only.
\<close>

theorem execute_keeps_clock:
  "clock (state_of (Vertex_execute P r h) r') = clock (h r') \<and>
   (\<forall>assigned output_data v out.
      fn P r h = Inr (assigned, output_data) \<longrightarrow>
      (case assigned of None \<Rightarrow> Inr (h r) | Some s \<Rightarrow> set_vertex_state s (h r)) = Inr v \<longrightarrow>
      push_all (push P) output_data (output_channels v) = Inr out \<longrightarrow>
      Vertex_execute P r h = Inr (h(r := v\<lparr>output_channels := out\<rparr>))) \<and>
   (\<forall>res. Graph_execute P H w = Some res \<longrightarrow>
      clock (graph (state_of res)) = clock (graph w) \<and>
      clock (heap (state_of res) r') = clock (heap w r')) \<and>
   clock (heap (state_of (apply_op P c w)) r') = clock (heap w r') \<and>
   clock (graph (state_of (apply_op P c w))) = clock (graph w)"
proof -
  have "clock (state_of (Vertex_execute P r h) r') = clock (h r')"
    using Vertex_execute_frame[of P r h] by auto
  moreover have "Vertex_execute P r h = Inr (h(r := v\<lparr>output_channels := out\<rparr>))"
    if "fn P r h = Inr (assigned, output_data)"
      "(case assigned of None \<Rightarrow> Inr (h r) | Some s \<Rightarrow> set_vertex_state s (h r)) = Inr v"
      "push_all (push P) output_data (output_channels v) = Inr out"
    for assigned output_data v out
    using that by (simp add: Vertex_execute_def update_and_archive_def update_archive_def)
  moreover have "clock (graph (state_of res)) = clock (graph w) \<and>
      clock (heap (state_of res) r') = clock (heap w r')"
    if "Graph_execute P H w = Some res" for res
    using Graph_execute_clock[OF that] by simp
  ultimately show ?thesis using clock_apply_op[of P c w r'] by blast
qed

theorem execute_keeps_clock_witness:
  "fn ex_env 1 fresh_heap = Inr (None, [(''n_counts'', 1)]) \<and>
   push_all (push ex_env) [(''n_counts'', 1)] (output_channels (fresh_heap 1)) = Inr [(''n_counts'', 1)] \<and>
   Vertex_execute ex_env 1 fresh_heap =
     Inr (fresh_heap(1 := (fresh_heap 1)\<lparr>output_channels := [(''n_counts'', 1)]\<rparr>)) \<and>
   clock (state_of (Vertex_execute ex_env 1 fresh_heap) 1) = clock (fresh_heap 1) \<and>
   Graph_execute ex_env (ex_hooks [] [] None None) ex_idle \<noteq> None \<and>
   clock (graph (state_of (the (Graph_execute ex_env (ex_hooks [] [] None None) ex_idle)))) =
     clock (graph ex_idle)"
proof -
  let ?H = "ex_hooks [] [] None None"
  have f: "fn ex_env 1 fresh_heap = Inr (None, [(''n_counts'', 1)])"
    by (simp add: ex_env_def)
  have s: "(case None of None \<Rightarrow> Inr (fresh_heap 1) | Some s \<Rightarrow> set_vertex_state s (fresh_heap 1)) =
       Inr (fresh_heap 1)"
    by simp
  have p: "push_all (push ex_env) [(''n_counts'', 1)] (output_channels (fresh_heap 1)) =
       Inr [(''n_counts'', 1)]"
    by (simp add: ex_env_def fresh_heap_def Vertex_init_def)
  have a: "active_vertex (graph ex_idle) = None"
    by (simp add: ex_defs)
  have g: "Graph_execute ex_env ?H ex_idle \<noteq> None"
    by (simp add: Graph_execute_def Graph_function_def Graph_while_at_rest[OF a] ex_hooks_def
        split: sum.splits prod.splits)
  then have g': "Graph_execute ex_env ?H ex_idle = Some (the (Graph_execute ex_env ?H ex_idle))"
    by simp
  from execute_keeps_clock[of ex_env 1 fresh_heap 1 ?H ex_idle Step] f s p g g'
  show ?thesis by blast
qed

theorem execute_increments_clock_counterexample:
  "\<not> isl (Vertex_execute ex_env 1 fresh_heap) \<and>
   clock (fresh_heap 1) = 0 \<and>
   clock (state_of (Vertex_execute ex_env 1 fresh_heap) 1) = 0"
  by (simp add: Vertex_execute_def ex_env_def update_and_archive_def update_archive_def
      fresh_heap_def Vertex_init_def)

subsection \<open>Graphs wired by the construction protocol\<close>

lemma register_all_frame:
  assumes "distinct (map fst (vertices (graph w)))"
  shows "\<exists>w1. register_all regs w = Inr w1 \<and>
           distinct (map fst (vertices (graph w1))) \<and>
           edges (graph w1) = edges (graph w) \<and>
           (\<forall>r. possible_vertex_states (heap w1 r) = possible_vertex_states (heap w r) \<and>
                vertex_state (heap w1 r) = vertex_state (heap w r))"
  using assms
proof (induction regs arbitrary: w)
  case Nil
  then show ?case by simp
next
  case (Cons kr regs)
  obtain k r where kr: "kr = (k, r)" by (cases kr)
  define w' where "w' = with_vertices w ((heap w)(r := (heap w r)\<lparr>vertex_name := k\<rparr>),
                                         AList.update k r (vertices (graph w)))"
  have step: "Graph_vertices_setitem k (VertexObj r) w = Inr w'"
    by (simp add: Graph_vertices_setitem_def Vertices_setitem_def w'_def)
  have d: "distinct (map fst (vertices (graph w')))"
    using Cons.prems by (simp add: w'_def with_vertices_def distinct_update)
  from Cons.IH[OF d] obtain w1 where w1: "register_all regs w' = Inr w1"
    "distinct (map fst (vertices (graph w1)))" "edges (graph w1) = edges (graph w')"
    "\<forall>r. possible_vertex_states (heap w1 r) = possible_vertex_states (heap w' r) \<and>
         vertex_state (heap w1 r) = vertex_state (heap w' r)"
    by blast
  have "register_all (kr # regs) w = Inr w1" using step w1(1) by (simp add: kr)
  moreover have "edges (graph w1) = edges (graph w)"
    using w1(3) by (simp add: w'_def with_vertices_def)
  moreover have "\<forall>r. possible_vertex_states (heap w1 r) = possible_vertex_states (heap w r) \<and>
         vertex_state (heap w1 r) = vertex_state (heap w r)"
    using w1(4) by (simp add: w'_def with_vertices_def)
  ultimately show ?case using w1(2) by blast
qed

lemma update_subset: "set (AList.update k r vs) \<subseteq> insert (k, r) (set vs)"
  by (induction vs) auto

lemma registration_synchronised:
  assumes "one_key_each regs"
  shows "(\<forall>(k, r)\<in>set (vertices (graph w)). vertex_name (heap w r) = k \<and>
            (\<forall>(k', r')\<in>set regs. r' = r \<longrightarrow> k' = k)) \<Longrightarrow>
         synchronised (state_of (register_all regs w))"
  using assms
proof (induction regs arbitrary: w)
  case Nil
  then show ?case by (auto simp: synchronised_def list_all_iff)
next
  case (Cons kr regs)
  obtain k r where kr: "kr = (k, r)" by (cases kr)
  define w' where "w' = with_vertices w ((heap w)(r := (heap w r)\<lparr>vertex_name := k\<rparr>),
                                         AList.update k r (vertices (graph w)))"
  have step: "Graph_vertices_setitem k (VertexObj r) w = Inr w'"
    by (simp add: Graph_vertices_setitem_def Vertices_setitem_def w'_def)
  have one: "one_key_each regs" and same: "\<forall>(k', r')\<in>set regs. r' = r \<longrightarrow> k' = k"
    using Cons.prems(2) by (auto simp: one_key_each_def list_all_iff kr)
  have sub: "set (vertices (graph w')) \<subseteq> insert (k, r) (set (vertices (graph w)))"
    using update_subset[of k r "vertices (graph w)"] by (simp add: w'_def with_vertices_def)
  have inv: "\<forall>(k1, r1)\<in>set (vertices (graph w')). vertex_name (heap w' r1) = k1 \<and>
            (\<forall>(k', r')\<in>set regs. r' = r1 \<longrightarrow> k' = k1)"
  proof (intro ballI, clarify)
    fix k1 r1
    assume "(k1, r1) \<in> set (vertices (graph w'))"
    with sub have "(k1, r1) = (k, r) \<or> (k1, r1) \<in> set (vertices (graph w))" by auto
    then show "vertex_name (heap w' r1) = k1 \<and> (\<forall>(k', r')\<in>set regs. r' = r1 \<longrightarrow> k' = k1)"
    proof
      assume "(k1, r1) = (k, r)"
      then show ?thesis using same by (simp add: w'_def with_vertices_def)
    next
      assume old: "(k1, r1) \<in> set (vertices (graph w))"
      with Cons.prems(1) have o: "vertex_name (heap w r1) = k1"
        "\<forall>(k', r')\<in>set (kr # regs). r' = r1 \<longrightarrow> k' = k1" by auto
      from o(2) have "r = r1 \<longrightarrow> k = k1" by (simp add: kr)
      then have "vertex_name (heap w' r1) = k1" using o(1) by (auto simp: w'_def with_vertices_def)
      moreover from o(2) have "\<forall>(k', r')\<in>set regs. r' = r1 \<longrightarrow> k' = k1" by simp
      ultimately show ?thesis by simp
    qed
  qed
  have "register_all (kr # regs) w = register_all regs w'" using step by (simp add: kr)
  with Cons.IH[OF inv one] show ?case by simp
qed

lemma initialize_all_result:
  assumes "distinct (map (\<lambda>r. vertex_name (h r)) rs)"
  shows "\<exists>es'. initialize_all h rs es = Inr es' \<and>
           (\<forall>r\<in>set rs. es' (vertex_name (h r)) = Some (dead_end (possible_vertex_states (h r)))) \<and>
           (\<forall>k. k \<notin> (\<lambda>r. vertex_name (h r)) ` set rs \<longrightarrow> es' k = es k)"
  using assms
proof (induction rs arbitrary: es)
  case Nil
  then show ?case by simp
next
  case (Cons r rs)
  let ?es1 = "es(vertex_name (h r) \<mapsto> dead_end (possible_vertex_states (h r)))"
  have d: "distinct (map (\<lambda>r. vertex_name (h r)) rs)"
    and n: "vertex_name (h r) \<notin> (\<lambda>r. vertex_name (h r)) ` set rs"
    using Cons.prems by simp_all
  from Cons.IH[OF d, of ?es1] obtain es' where es': "initialize_all h rs ?es1 = Inr es'"
    "\<forall>r\<in>set rs. es' (vertex_name (h r)) = Some (dead_end (possible_vertex_states (h r)))"
    "\<forall>k. k \<notin> (\<lambda>r. vertex_name (h r)) ` set rs \<longrightarrow> es' k = ?es1 k"
    by blast
  have "initialize_all h (r # rs) es = Inr es'"
    using es'(1) by (simp add: Edges_initialize_vertex)
  moreover have "es' (vertex_name (h r)) = Some (dead_end (possible_vertex_states (h r)))"
    using es'(3) n by simp
  moreover have "\<forall>k. k \<notin> (\<lambda>r. vertex_name (h r)) ` set (r # rs) \<longrightarrow> es' k = es k"
    using es'(3) by simp
  ultimately show ?case using es'(2) by simp
qed

lemma distinct_keys_unique:
  "distinct (map fst vs) \<Longrightarrow> (k, r) \<in> set vs \<Longrightarrow> (k, r') \<in> set vs \<Longrightarrow> r = r'"
  by (meson eq_key_imp_eq_value)

lemma complete_rowsD:
  assumes "complete_rows h vs es" and "(k, r) \<in> set vs"
  shows "\<exists>row. es k = Some row \<and> dom row = set (possible_vertex_states (h r)) \<and>
           (\<forall>s n. row s = Some (Some n) \<longrightarrow> Some n \<in> fst ` set vs)"
proof -
  from assms have "case es k of None \<Rightarrow> False
      | Some row \<Rightarrow> dom row = set (possible_vertex_states (h r)) \<and>
          (\<forall>s n. row s = Some (Some n) \<longrightarrow> Some n \<in> fst ` set vs)"
    unfolding complete_rows_def by blast
  then show ?thesis by (cases "es k") simp_all
qed

lemma complete_rows_update:
  assumes dk: "distinct (map fst vs)"
    and cr: "complete_rows h vs es"
    and v: "(kv, v) \<in> set vs" and w: "(kw, w) \<in> set vs"
    and row: "es kv = Some row"
    and st: "state \<in> set (possible_vertex_states (h v))"
  shows "complete_rows h vs (es(kv \<mapsto> row(state \<mapsto> kw)))"
  unfolding complete_rows_def
proof (intro ballI, clarify)
  fix k r
  assume kr: "(k, r) \<in> set vs"
  show "case (es(kv \<mapsto> row(state \<mapsto> kw))) k of
          None \<Rightarrow> False
        | Some row \<Rightarrow> dom row = set (possible_vertex_states (h r)) \<and>
            (\<forall>s n. row s = Some (Some n) \<longrightarrow> Some n \<in> fst ` set vs)"
  proof (cases "k = kv")
    case True
    with kr v dk have rv: "r = v" using distinct_keys_unique by fastforce
    from complete_rowsD[OF cr v] row have d: "dom row = set (possible_vertex_states (h v))"
      and s: "\<forall>s n. row s = Some (Some n) \<longrightarrow> Some n \<in> fst ` set vs"
      by simp_all
    have "dom (row(state \<mapsto> kw)) = set (possible_vertex_states (h v))"
      using d st by auto
    moreover have "\<forall>s n. (row(state \<mapsto> kw)) s = Some (Some n) \<longrightarrow> Some n \<in> fst ` set vs"
    proof (intro allI impI)
      fix s' n
      assume a: "(row(state \<mapsto> kw)) s' = Some (Some n)"
      show "Some n \<in> fst ` set vs"
      proof (cases "s' = state")
        case True
        with a have "kw = Some n" by simp
        with w show ?thesis by force
      next
        case False
        with a s show ?thesis by simp
      qed
    qed
    ultimately show ?thesis using True rv by simp
  next
    case False
    then show ?thesis using complete_rowsD[OF cr kr] by auto
  qed
qed

lemma vertices_of_Cons:
  "set (vertices_of (x # xs)) = (case x of VertexObj r \<Rightarrow> {r} | _ \<Rightarrow> {}) \<union> set (vertices_of xs)"
  by (cases x) (simp_all add: vertices_of_def)

lemma set_flow_chain_complete:
  assumes "distinct (map fst vs)" and "\<forall>(k, r)\<in>set vs. vertex_name (h r) = k"
  shows "complete_rows h vs es \<Longrightarrow> set (vertices_of args) \<subseteq> snd ` set vs \<Longrightarrow>
         complete_rows h vs (state_of (set_flow_chain h args es))"
proof (induction args arbitrary: es rule: length_induct)
  case (1 args)
  note IH = "1.IH"[rule_format] and cr = "1.prems"(1) and reg = "1.prems"(2)
  show ?case
  proof (cases args)
    case Nil
    then show ?thesis using cr by simp
  next
    case (Cons x rest1)
    show ?thesis
    proof (cases rest1)
      case Nil
      then show ?thesis using cr Cons by simp
    next
      case rest1: (Cons next_obj rest)
      have args: "args = x # next_obj # rest" using Cons rest1 by simp
      have tl_reg: "set (vertices_of (next_obj # rest)) \<subseteq> snd ` set vs"
        using reg args by (auto simp: vertices_of_Cons)
      have rec: "complete_rows h vs es' \<Longrightarrow>
                 complete_rows h vs (state_of (set_flow_chain h (next_obj # rest) es'))" for es'
        using IH[of "next_obj # rest" es'] tl_reg args by simp
      show ?thesis
      proof (cases "\<exists>v. x = VertexObj v")
        case False
        then have "set_flow_chain h args es = set_flow_chain h (next_obj # rest) es"
          unfolding args by (cases x) simp_all
        then show ?thesis using rec[OF cr] by simp
      next
        case True
        then obtain v where x: "x = VertexObj v" by blast
        have vreg: "v \<in> snd ` set vs" using reg args x by (auto simp: vertices_of_Cons)
        then have v: "(vertex_name (h v), v) \<in> set vs" using assms(2) by force
        define R where "R = (case next_obj of
              StrObj s \<Rightarrow> (case rest of [] \<Rightarrow> Inl IndexError | nv # _ \<Rightarrow> Inr (s, nv))
            | _ \<Rightarrow> Inr (DEFAULT_STATE, next_obj))"
        have unfold: "set_flow_chain h args es =
          (case R of
             Inl e \<Rightarrow> Inl (e, es)
           | Inr (state, next_vertex) \<Rightarrow>
              (case next_vertex of
                 VertexObj w \<Rightarrow>
                   if state \<notin> set (possible_vertex_states (h v)) then Inl (KeyError, es)
                   else
                     (case es (vertex_name (h v)) of
                        None \<Rightarrow> Inl (KeyError, es)
                      | Some row \<Rightarrow>
                          set_flow_chain h (next_obj # rest)
                            (es(vertex_name (h v) \<mapsto> row(state \<mapsto> vertex_name (h w)))))
               | _ \<Rightarrow> Inl (TypeError, es)))"
          unfolding args x R_def by (rule set_flow_chain.simps(3))
        show ?thesis
        proof (cases R)
          case (Inl e)
          then show ?thesis using cr by (simp add: unfold)
        next
          case (Inr p)
          obtain state next_vertex where p: "p = (state, next_vertex)" by (cases p)
          have nv_in: "next_vertex \<in> set (next_obj # rest)"
            using Inr p by (auto simp: R_def split: pyobj.splits list.splits)
          show ?thesis
          proof (cases "\<exists>w. next_vertex = VertexObj w")
            case False
            then have "set_flow_chain h args es = Inl (TypeError, es)"
              using Inr p by (cases next_vertex) (simp_all add: unfold)
            then show ?thesis using cr by simp
          next
            case True
            then obtain w where nv: "next_vertex = VertexObj w" by blast
            have "w \<in> set (vertices_of (next_obj # rest))"
              using nv_in nv by (auto simp: vertices_of_def)
            then have "w \<in> snd ` set vs" using tl_reg by blast
            then have w: "(vertex_name (h w), w) \<in> set vs" using assms(2) by force
            show ?thesis
            proof (cases "state \<in> set (possible_vertex_states (h v))")
              case False
              then show ?thesis using cr Inr p nv by (simp add: unfold)
            next
              case st: True
              show ?thesis
              proof (cases "es (vertex_name (h v))")
                case None
                then show ?thesis using cr Inr p nv st by (simp add: unfold)
              next
                case (Some row)
                let ?es' = "es(vertex_name (h v) \<mapsto> row(state \<mapsto> vertex_name (h w)))"
                have "complete_rows h vs ?es'"
                  using assms(1) cr v w Some st by (rule complete_rows_update)
                then have "complete_rows h vs (state_of (set_flow_chain h (next_obj # rest) ?es'))"
                  by (rule rec)
                moreover have "set_flow_chain h args es = set_flow_chain h (next_obj # rest) ?es'"
                  using Inr p nv st Some by (simp add: unfold)
                ultimately show ?thesis by simp
              qed
            qed
          qed
        qed
      qed
    qed
  qed
qed

lemma with_edges_simps:
  "heap (with_edges w es) = heap w"
  "vertices (graph (with_edges w es)) = vertices (graph w)"
  "edges (graph (with_edges w es)) = es"
  "starting_vertex (graph (with_edges w es)) = starting_vertex (graph w)"
  "restarting_vertex (graph (with_edges w es)) = restarting_vertex (graph w)"
  "active_vertex (graph (with_edges w es)) = active_vertex (graph w)"
  "with_edges (with_edges w es) es' = with_edges w es'"
  by (simp_all add: with_edges_def)

lemma on_edges_state:
  "state_of (on_edges f w) = with_edges w (state_of (f (heap w) (edges (graph w))))"
  by (auto simp: on_edges_def split: sum.splits)

lemma flow_chains_result:
  assumes "distinct (map fst vs)" and "\<forall>(k, r)\<in>set vs. vertex_name (h r) = k"
    and "\<forall>args\<in>set calls. set (vertices_of args) \<subseteq> snd ` set vs"
  shows "heap w = h \<Longrightarrow> vertices (graph w) = vs \<Longrightarrow> complete_rows h vs (edges (graph w)) \<Longrightarrow>
         \<exists>es'. state_of (flow_chains calls w) = with_edges w es' \<and> complete_rows h vs es'"
  using assms(3)
proof (induction calls arbitrary: w)
  case Nil
  have "w = with_edges w (edges (graph w))" by (simp add: with_edges_def)
  with Nil show ?case by (metis flow_chains.simps(1) state_of_simps(2))
next
  case (Cons args calls)
  let ?es1 = "state_of (set_flow_chain h args (edges (graph w)))"
  let ?w1 = "with_edges w ?es1"
  have s1: "state_of (on_edges (\<lambda>h. set_flow_chain h args) w) = ?w1"
    using Cons.prems(1) by (simp add: on_edges_state)
  have c1: "complete_rows h vs ?es1"
    using assms(1,2) Cons.prems(3) Cons.prems(4) by (intro set_flow_chain_complete) auto
  show ?case
  proof (cases "on_edges (\<lambda>h. set_flow_chain h args) w")
    case (Inl x)
    then have "state_of (flow_chains (args # calls) w) = state_of (on_edges (\<lambda>h. set_flow_chain h args) w)"
      by (cases x) simp
    with s1 c1 show ?thesis by auto
  next
    case (Inr w')
    with s1 have w': "w' = ?w1" by simp
    have "\<exists>es'. state_of (flow_chains calls w') = with_edges w' es' \<and> complete_rows h vs es'"
      using Cons.prems c1 by (intro Cons.IH) (simp_all add: w' with_edges_simps)
    then obtain es' where "state_of (flow_chains calls w') = with_edges w' es'" "complete_rows h vs es'"
      by blast
    moreover have "flow_chains (args # calls) w = flow_chains calls w'" using Inr by simp
    ultimately show ?thesis by (auto simp: w' with_edges_simps)
  qed
qed

lemma complete_rows_cong:
  assumes "\<forall>r. possible_vertex_states (h' r) = possible_vertex_states (h r)"
  shows "complete_rows h' vs es = complete_rows h vs es"
  by (simp add: complete_rows_def assms cong: option.case_cong prod.case_cong)

lemma well_wired_step_returns:
  assumes "well_wired w"
  shows "\<exists>w'. Graph_step w = Inr w'"
proof (cases "active_vertex (graph w)")
  case None
  then show ?thesis by (simp add: Graph_step_def)
next
  case (Some r)
  let ?vs = "vertices (graph w)"
  from assms Some have "r \<in> registered w" by (simp add: well_wired_def)
  then obtain k where kr: "(k, r) \<in> set ?vs" by (auto simp: registered_def)
  with assms have nm: "vertex_name (heap w r) = k"
    and st: "vertex_state (heap w r) \<in> set (possible_vertex_states (heap w r))"
    by (auto simp: well_wired_def)
  from assms have cr: "complete_rows (heap w) ?vs (edges (graph w))" by (simp add: well_wired_def)
  from complete_rowsD[OF cr kr] obtain row where row: "edges (graph w) k = Some row"
    "dom row = set (possible_vertex_states (heap w r))"
    "\<forall>s n. row s = Some (Some n) \<longrightarrow> Some n \<in> fst ` set ?vs" by blast
  from row(2) st obtain x where x: "row (vertex_state (heap w r)) = Some x" by blast
  show ?thesis
  proof (cases x)
    case None
    with Some nm row(1) x show ?thesis by (simp add: Graph_step_def)
  next
    case (Some n)
    with x row(3) have "Some n \<in> fst ` set ?vs" by blast
    then obtain r' where "map_of ?vs (Some n) = Some r'"
      by (cases "map_of ?vs (Some n)") (auto simp: map_of_eq_None_iff)
    with \<open>active_vertex (graph w) = Some r\<close> nm row(1) x Some show ?thesis
      by (simp add: Graph_step_def)
  qed
qed

lemma well_wired_heap_update:
  assumes ww: "well_wired w"
    and s: "s = vertex_state (heap w r) \<or> s \<in> set (possible_vertex_states (heap w r))"
    and h: "heap w' = (heap w)(r := (heap w r)\<lparr>vertex_state := s, output_channels := out\<rparr>)"
    and g: "graph w' = graph w"
  shows "well_wired w'"
proof -
  have p: "\<forall>r'. possible_vertex_states (heap w' r') = possible_vertex_states (heap w r')"
    by (simp add: h)
  have n: "vertex_name (heap w' r') = vertex_name (heap w r')" for r'
    by (simp add: h)
  have st: "vertex_state (heap w' r') \<in> set (possible_vertex_states (heap w' r'))"
    if "vertex_state (heap w r') \<in> set (possible_vertex_states (heap w r'))" for r'
    using that s by (auto simp: h)
  have "complete_rows (heap w') (vertices (graph w)) (edges (graph w))"
    using ww complete_rows_cong[OF p] by (simp add: well_wired_def)
  moreover have "\<forall>(k, r')\<in>set (vertices (graph w)).
         vertex_name (heap w' r') = k \<and>
         vertex_state (heap w' r') \<in> set (possible_vertex_states (heap w' r'))"
    using ww st n by (auto simp: well_wired_def)
  ultimately show ?thesis
    using ww by (simp add: well_wired_def g registered_def)
qed

lemma well_wired_cursor:
  assumes ww: "well_wired w" and a: "set_option a \<subseteq> registered w"
    and g: "graph w' = (graph w)\<lparr>active_vertex := a\<rparr>" and h: "heap w' = heap w"
  shows "well_wired w'"
  using ww a by (simp add: well_wired_def g h registered_def)

lemma well_wired_apply_op:
  assumes ww: "well_wired w" and rt: "runtime_op c"
  shows "well_wired (state_of (apply_op P c w))"
proof (cases c)
  case (Execute r)
  obtain s out' where f: "state_of (Vertex_execute P r (heap w)) =
      (heap w)(r := (heap w r)\<lparr>vertex_state := s, output_channels := out'\<rparr>)"
    "s = vertex_state (heap w r) \<or> s \<in> set (possible_vertex_states (heap w r))"
    using Vertex_execute_frame[of P r "heap w"] by blast
  have "well_wired (state_of (execute_active P r w))"
    using ww f(2)
  proof (rule well_wired_heap_update)
    show "heap (state_of (execute_active P r w)) =
        (heap w)(r := (heap w r)\<lparr>vertex_state := s, output_channels := out'\<rparr>)"
      by (simp add: heap_execute_active f(1))
    show "graph (state_of (execute_active P r w)) = graph w"
      by (rule graph_execute_active)
  qed
  with Execute show ?thesis by simp
next
  case (AssignState r s)
  show ?thesis
  proof (cases "s \<in> set (possible_vertex_states (heap w r))")
    case True
    have "well_wired (state_of (assign_vertex_state r s w))"
      using ww
    proof (rule well_wired_heap_update)
      show "s = vertex_state (heap w r) \<or> s \<in> set (possible_vertex_states (heap w r))"
        using True by simp
      show "heap (state_of (assign_vertex_state r s w)) =
          (heap w)(r := (heap w r)\<lparr>vertex_state := s, output_channels := output_channels (heap w r)\<rparr>)"
        using True by (simp add: assign_vertex_state_def set_vertex_state_def)
      show "graph (state_of (assign_vertex_state r s w)) = graph w"
        using True by (simp add: assign_vertex_state_def set_vertex_state_def)
    qed
    with AssignState show ?thesis by simp
  next
    case False
    then have "state_of (assign_vertex_state r s w) = w"
      by (simp add: assign_vertex_state_def set_vertex_state_def)
    with AssignState ww show ?thesis by simp
  qed
next
  case Step
  show ?thesis
  proof (cases "Graph_step w")
    case (Inl x)
    then have "state_of (Graph_step w) = w"
      by (auto simp: Graph_step_def split: option.splits)
    with Step ww show ?thesis by simp
  next
    case (Inr w')
    then obtain a where a: "w' = w \<or> w' = with_active w a" "set_option a \<subseteq> registered w"
    proof (cases "active_vertex (graph w)")
      case None
      with Inr have "w' = w" by (simp add: Graph_step_def)
      then show ?thesis using that[of None] by simp
    next
      case (Some r)
      with Inr obtain row x where rx: "edges (graph w) (vertex_name (heap w r)) = Some row"
        "row (vertex_state (heap w r)) = Some x"
        by (auto simp: Graph_step_def split: option.splits)
      show ?thesis
      proof (cases x)
        case None
        with Inr Some rx have "w' = with_active w None" by (simp add: Graph_step_def)
        then show ?thesis using that[of None] by simp
      next
        case n: (Some n)
        with Inr Some rx obtain r' where r': "map_of (vertices (graph w)) (Some n) = Some r'"
          "w' = with_active w (Some r')"
          by (auto simp: Graph_step_def split: option.splits)
        from r'(1) have "(Some n, r') \<in> set (vertices (graph w))" by (rule map_of_SomeD)
        then have "r' \<in> registered w" by (force simp: registered_def)
        with r'(2) show ?thesis using that[of "Some r'"] by simp
      qed
    qed
    from a(1) have "well_wired w'"
    proof
      assume "w' = w"
      with ww show ?thesis by simp
    next
      assume "w' = with_active w a"
      then have "graph w' = (graph w)\<lparr>active_vertex := a\<rparr>" "heap w' = heap w"
        by (simp_all add: with_active_def)
      with ww a(2) show ?thesis by (rule well_wired_cursor)
    qed
    with Step Inr show ?thesis by simp
  qed
next
  case Reset
  show ?thesis
  proof (cases "active_vertex (graph w) \<noteq> None")
    case True
    then have "state_of (Graph_reset w) = w" by (simp add: Graph_reset_def)
    with Reset ww show ?thesis by simp
  next
    case False
    let ?a = "restarting_vertex (graph w)"
    have "graph (state_of (Graph_reset w)) = (graph w)\<lparr>active_vertex := ?a\<rparr>"
      "heap (state_of (Graph_reset w)) = heap w"
      using False by (simp_all add: Graph_reset_def Let_def with_active_def warn_def)
    moreover have "set_option ?a \<subseteq> registered w" using ww by (simp add: well_wired_def)
    ultimately have "well_wired (state_of (Graph_reset w))"
      using ww well_wired_cursor by blast
    with Reset show ?thesis by simp
  qed
qed (use rt in \<open>simp_all add: runtime_op_def\<close>)

lemma well_wired_run_ops:
  "well_wired w \<Longrightarrow> \<forall>c\<in>set ops. runtime_op c \<Longrightarrow> well_wired (run_ops P ops w)"
proof (induction ops arbitrary: w)
  case Nil
  then show ?case by (simp add: run_ops_def)
next
  case (Cons c ops)
  have "run_ops P (c # ops) w = run_ops P ops (state_of (apply_op P c w))"
    by (simp add: run_ops_def)
  moreover have "well_wired (state_of (apply_op P c w))"
    using Cons.prems by (intro well_wired_apply_op) simp_all
  ultimately show ?case using Cons.IH Cons.prems(2) by simp
qed

lemma one_key_each_synchronised:
  assumes "follows_protocol H regs calls start restart" and "one_key_each regs"
    and "set_vertices H \<lparr>heap = h, graph = Graph_new i o', logged = [], executions = []\<rparr> = Inr w1"
  shows "synchronised w1"
proof -
  let ?init = "\<lparr>heap = h, graph = Graph_new i o', logged = [], executions = []\<rparr> :: ('a, 'b) world"
  have "vertices (Graph_new i o') = []"
    by (simp add: Graph_new_def vertex.defs graph.defs)
  then have "\<forall>(k, r)\<in>set (vertices (graph ?init)). vertex_name (heap ?init r) = k \<and>
            (\<forall>(k', r')\<in>set regs. r' = r \<longrightarrow> k' = k)" by simp
  from registration_synchronised[OF assms(2) this] assms(1,3) show ?thesis
    by (simp add: follows_protocol_def)
qed

lemma protocol_construction:
  assumes fp: "follows_protocol H regs calls start restart"
    and sv: "set_vertices H \<lparr>heap = h, graph = Graph_new i o', logged = [], executions = []\<rparr> = Inr w1"
    and sy: "synchronised w1"
    and cv: "\<forall>args\<in>set calls. set (vertices_of args) \<subseteq> registered w1"
  shows "\<exists>es1 es3.
           distinct (map fst (vertices (graph w1))) \<and>
           Graph_initialize_edges w1 = Inr (with_edges w1 es1) \<and>
           (\<forall>(k, r)\<in>set (vertices (graph w1)).
              es1 k = Some (dead_end (possible_vertex_states (heap w1 r)))) \<and>
           state_of (set_edges H (with_edges w1 es1)) = with_edges w1 es3 \<and>
           complete_rows (heap w1) (vertices (graph w1)) es3"
proof -
  let ?init = "\<lparr>heap = h, graph = Graph_new i o', logged = [], executions = []\<rparr> :: ('a, 'b) world"
  let ?vs = "vertices (graph w1)"
  have rg: "set_vertices H = register_all regs" and se: "set_edges H = flow_chains calls"
    using fp by (simp_all add: follows_protocol_def)
  have "vertices (Graph_new i o') = []"
    by (simp add: Graph_new_def vertex.defs graph.defs)
  then have "distinct (map fst (vertices (graph ?init)))" by simp
  from register_all_frame[OF this, of regs] sv have dk: "distinct (map fst ?vs)"
    by (auto simp: rg)
  have sync: "\<forall>(k, r)\<in>set ?vs. vertex_name (heap w1 r) = k"
    using sy by (simp add: synchronised_def list_all_iff)
  then have names: "map (\<lambda>r. vertex_name (heap w1 r)) (map snd ?vs) = map fst ?vs"
    by (auto simp: map_eq_conv)
  have "distinct (map (\<lambda>r. vertex_name (heap w1 r)) (map snd ?vs))"
    unfolding names by (rule dk)
  from initialize_all_result[OF this, of "edges (graph w1)"] obtain es1 where
    es1: "initialize_all (heap w1) (map snd ?vs) (edges (graph w1)) = Inr es1"
    "\<forall>r\<in>set (map snd ?vs).
       es1 (vertex_name (heap w1 r)) = Some (dead_end (possible_vertex_states (heap w1 r)))"
    by blast
  have ie: "Graph_initialize_edges w1 = Inr (with_edges w1 es1)"
    using es1(1) by (simp add: Graph_initialize_edges_def)
  have rows: "\<forall>(k, r)\<in>set ?vs. es1 k = Some (dead_end (possible_vertex_states (heap w1 r)))"
  proof (intro ballI, clarify)
    fix k r
    assume kr: "(k, r) \<in> set ?vs"
    then have "r \<in> set (map snd ?vs)" by force
    with es1(2) have "es1 (vertex_name (heap w1 r)) = Some (dead_end (possible_vertex_states (heap w1 r)))"
      by blast
    moreover from sync kr have "vertex_name (heap w1 r) = k" by blast
    ultimately show "es1 k = Some (dead_end (possible_vertex_states (heap w1 r)))" by simp
  qed
  have cr1: "complete_rows (heap w1) ?vs es1"
    unfolding complete_rows_def
  proof (intro ballI, clarify)
    fix k r
    assume kr: "(k, r) \<in> set ?vs"
    with rows have e: "es1 k = Some (dead_end (possible_vertex_states (heap w1 r)))" by blast
    show "case es1 k of None \<Rightarrow> False
        | Some row \<Rightarrow> dom row = set (possible_vertex_states (heap w1 r)) \<and>
            (\<forall>s n. row s = Some (Some n) \<longrightarrow> Some n \<in> fst ` set ?vs)"
      by (simp add: e dom_dead_end dead_end_eq)
  qed
  let ?w2 = "with_edges w1 es1"
  have cv': "\<forall>args\<in>set calls. set (vertices_of args) \<subseteq> snd ` set ?vs"
    using cv by (simp add: registered_def)
  have "\<exists>es'. state_of (flow_chains calls ?w2) = with_edges ?w2 es' \<and> complete_rows (heap w1) ?vs es'"
    using dk sync cv'
  proof (rule flow_chains_result)
    show "heap ?w2 = heap w1" by (simp add: with_edges_simps)
    show "vertices (graph ?w2) = ?vs" by (simp add: with_edges_simps)
    show "complete_rows (heap w1) ?vs (edges (graph ?w2))" by (simp add: with_edges_simps cr1)
  qed
  then obtain es3 where es3: "state_of (flow_chains calls ?w2) = with_edges w1 es3"
    "complete_rows (heap w1) ?vs es3"
    by (auto simp: with_edges_simps)
  from dk ie rows es3 show ?thesis
    unfolding se by blast
qed

lemma Graph_init_protocol:
  assumes fp: "follows_protocol H regs calls start restart"
    and sv: "set_vertices H \<lparr>heap = h, graph = Graph_new i o', logged = [], executions = []\<rparr> = Inr w1"
    and sy: "synchronised w1"
    and cv: "\<forall>args\<in>set calls. set (vertices_of args) \<subseteq> registered w1"
    and init: "Graph_init H i o' h = Inr w0"
  shows "heap w0 = heap w1 \<and> vertices (graph w0) = vertices (graph w1) \<and>
         distinct (map fst (vertices (graph w0))) \<and>
         active_vertex (graph w0) = start \<and> restarting_vertex (graph w0) = restart \<and>
         complete_rows (heap w0) (vertices (graph w0)) (edges (graph w0))"
proof -
  from protocol_construction[OF fp sv sy cv] obtain es1 es3 where
    c: "distinct (map fst (vertices (graph w1)))"
      "Graph_initialize_edges w1 = Inr (with_edges w1 es1)"
      "state_of (set_edges H (with_edges w1 es1)) = with_edges w1 es3"
      "complete_rows (heap w1) (vertices (graph w1)) es3"
    by blast
  have wd: "wire_data_flow H = assign_start start restart"
    using fp by (simp add: follows_protocol_def)
  obtain w3 where w3: "set_edges H (with_edges w1 es1) = Inr w3"
    using init sv c(2) by (cases "set_edges H (with_edges w1 es1)") (simp_all add: Graph_init_def)
  with c(3) have w3': "w3 = with_edges w1 es3" by simp
  define w4 where "w4 = w3\<lparr>graph := (graph w3)\<lparr>starting_vertex := start, restarting_vertex := restart\<rparr>\<rparr>"
  have "wire_data_flow H w3 = Inr w4"
    by (simp add: wd assign_start_def w4_def)
  with init sv c(2) w3 have "heap w0 = heap w4 \<and> vertices (graph w0) = vertices (graph w4) \<and>
      edges (graph w0) = edges (graph w4) \<and> active_vertex (graph w0) = starting_vertex (graph w4) \<and>
      restarting_vertex (graph w0) = restarting_vertex (graph w4)"
    by (auto simp: Graph_init_def Let_def warn_def with_active_def split: if_splits)
  then have "heap w0 = heap w1" "vertices (graph w0) = vertices (graph w1)" "edges (graph w0) = es3"
    "active_vertex (graph w0) = start" "restarting_vertex (graph w0) = restart"
    by (simp_all add: w4_def w3' with_edges_def)
  with c(1,4) show ?thesis by simp
qed




text \<open>
  Claim C9, as amended. Take a graph constructed by the protocol that is synchronised
  once \<^verbatim>\<open>set_vertices\<close> has returned, with every registered vertex in one of its
  declared states, all edges wired by \<^verbatim>\<open>set_flow_chain\<close> calls on registered
  vertices, and the starting and the restarting vertex registered or \<^verbatim>\<open>None\<close>.
  Then \<^verbatim>\<open>Graph.step\<close> returns, so none of its lookups raises, in every state the
  graph reaches by child executions, assignments through the setter of
  \<^verbatim>\<open>vertex_state\<close>, steps and resets, raising or not.
\<close>

theorem step_lookups_succeed:
  assumes "follows_protocol H regs calls start restart"
    and "set_vertices H \<lparr>heap = h, graph = Graph_new i o', logged = [], executions = []\<rparr> = Inr w1"
    and "synchronised w1"
    and "\<forall>args\<in>set calls. set (vertices_of args) \<subseteq> registered w1"
    and "\<forall>r\<in>registered w1. vertex_state (heap w1 r) \<in> set (possible_vertex_states (heap w1 r))"
    and "set_option start \<subseteq> registered w1" and "set_option restart \<subseteq> registered w1"
    and "Graph_init H i o' h = Inr w0"
    and "\<forall>c\<in>set ops. runtime_op c"
  shows "\<exists>w'. Graph_step (run_ops P ops w0) = Inr w'"
proof -
  from Graph_init_protocol[OF assms(1,2,3,4,8)] have g: "heap w0 = heap w1"
    "vertices (graph w0) = vertices (graph w1)"
    "distinct (map fst (vertices (graph w0)))"
    "active_vertex (graph w0) = start" "restarting_vertex (graph w0) = restart"
    "complete_rows (heap w0) (vertices (graph w0)) (edges (graph w0))" by blast+
  have reg: "registered w0 = registered w1" by (simp add: registered_def g(2))
  have "\<forall>(k, r)\<in>set (vertices (graph w0)). vertex_name (heap w0 r) = k \<and>
          vertex_state (heap w0 r) \<in> set (possible_vertex_states (heap w0 r))"
  proof (intro ballI, clarify)
    fix k r
    assume kr: "(k, r) \<in> set (vertices (graph w0))"
    then have "r \<in> registered w1" by (force simp: registered_def g(2))
    with assms(5) have "vertex_state (heap w1 r) \<in> set (possible_vertex_states (heap w1 r))"
      by blast
    moreover from kr assms(3) have "vertex_name (heap w1 r) = k"
      by (auto simp: synchronised_def list_all_iff g(2))
    ultimately show "vertex_name (heap w0 r) = k \<and>
          vertex_state (heap w0 r) \<in> set (possible_vertex_states (heap w0 r))"
      by (simp add: g(1))
  qed
  then have "well_wired w0"
    using assms(6,7) g(3,4,5,6) reg by (simp add: well_wired_def)
  then have "well_wired (run_ops P ops w0)"
    using assms(9) by (rule well_wired_run_ops)
  then show ?thesis by (rule well_wired_step_returns)
qed

theorem step_lookups_succeed_witness:
  "synchronised
     (state_of (register_all [(Some ''check'', 0), (Some ''a'', 1), (Some ''b'', 2)]
        \<lparr>heap = two_state_heap, graph = Graph_new () [], logged = [], executions = []\<rparr>)) \<and>
   Graph_init
     (ex_hooks [(Some ''check'', 0), (Some ''a'', 1), (Some ''b'', 2)]
        [[VertexObj 1, VertexObj 0, StrObj ''false'', VertexObj 1],
         [VertexObj 0, StrObj ''true'', VertexObj 2]] (Some 1) (Some 0))
     () [] two_state_heap = Inr ex_branch \<and>
   (\<exists>w'. Graph_step (run_ops ex_env
       [Execute 1, Step, Execute 0, AssignState 0 ''true'', Step, Execute 2, Step, Reset, Execute 0]
       ex_branch) = Inr w')"
proof -
  let ?regs = "[(Some ''check'', 0), (Some ''a'', 1), (Some ''b'', 2)] :: (name \<times> vref) list"
  let ?calls = "[[VertexObj 1, VertexObj 0, StrObj ''false'', VertexObj 1],
      [VertexObj 0, StrObj ''true'', VertexObj 2]]"
  let ?H = "ex_hooks ?regs ?calls (Some 1) (Some 0)"
  let ?init = "\<lparr>heap = two_state_heap, graph = Graph_new () [], logged = [], executions = []\<rparr>
                :: (unit, ex_out) world"
  let ?w1 = "state_of (register_all ?regs ?init)"
  let ?ops = "[Execute 1, Step, Execute 0, AssignState 0 ''true'', Step, Execute 2, Step, Reset, Execute 0]"
  have fp: "follows_protocol ?H ?regs ?calls (Some 1) (Some 0)"
    by (simp add: follows_protocol_def ex_hooks_def)
  have sv: "set_vertices ?H ?init = Inr ?w1"
    by (simp add: ex_defs)
  have sy: "synchronised ?w1"
    by (simp add: synchronised_def ex_defs)
  have cv: "\<forall>args\<in>set ?calls. set (vertices_of args) \<subseteq> registered ?w1"
    by (simp add: vertices_of_def registered_def ex_defs)
  have st: "\<forall>r\<in>registered ?w1.
      vertex_state (heap ?w1 r) \<in> set (possible_vertex_states (heap ?w1 r))"
    by (simp add: registered_def ex_defs)
  have s: "set_option (Some 1) \<subseteq> registered ?w1" "set_option (Some 0) \<subseteq> registered ?w1"
    by (simp_all add: registered_def ex_defs)
  have init: "Graph_init ?H () [] two_state_heap = Inr ex_branch"
    by (simp add: ex_defs)
  have rt: "\<forall>c\<in>set ?ops. runtime_op c"
    by (simp add: runtime_op_def)
  from step_lookups_succeed[OF fp sv sy cv st s init rt, of ex_env] sy init
  show ?thesis by blast
qed

theorem step_lookups_counterexample:
  "active_vertex (graph ex_twice) = Some 1 \<and>
   vertex_state (heap ex_twice 1) \<in> set (possible_vertex_states (heap ex_twice 1)) \<and>
   \<not> isl (execute_active ex_env 1 ex_twice) \<and>
   map_sum fst (\<lambda>w. ()) (Graph_step (state_of (execute_active ex_env 1 ex_twice))) = Inl KeyError \<and>
   map_option (map_sum fst (\<lambda>w. ())) (Graph_while ex_env ex_twice) = Some (Inl KeyError) \<and>
   vertices (graph ex_unset) = [(Some ''check'', 0)] \<and>
   synchronised ex_unset \<and>
   active_vertex (graph ex_unset) = Some 0 \<and>
   \<not> isl (execute_active ex_env 0 ex_unset) \<and>
   map_sum fst (\<lambda>w. ()) (Graph_step (state_of (execute_active ex_env 0 ex_unset))) = Inl KeyError \<and>
   map_option (map_sum fst (\<lambda>w. ())) (Graph_while ex_env ex_unset) = Some (Inl KeyError)"
  by (simp add: Graph_while.simps execute_active_def Vertex_execute_def update_and_archive_def
      update_archive_def Graph_step_def ex_defs2 synchronised_def)

end
